theory Spec2Isabelle
  imports Complex_Main
begin

section \<open>The FLIP/PIC fluid solver of \<^verbatim>\<open>src/FluidSim.ts\<close>\<close>

text \<open>
  The development embeds the class \<^verbatim>\<open>FluidSim\<close> function by function.

  \<^item> A JavaScript number is a \<^typ>\<open>real\<close>: the model has neither rounding (of doubles, or of
    the single-precision stores into a \<^verbatim>\<open>Float32Array\<close>) nor the values \<^verbatim>\<open>NaN\<close> and
    \<^verbatim>\<open>Infinity\<close>. The guards \<^verbatim>\<open>isNaN(gx) || isNaN(gy)\<close> of the source are therefore never
    taken and are left out; a quotient by a cell size of zero is outside the model.
  \<^item> A typed array is a list. A store outside the array is ignored, as JavaScript does;
    a load outside the array yields \<^verbatim>\<open>undefined\<close> in JavaScript and is left unspecified.
  \<^item> Mutation is explicit state passing on the record \<open>sim\<close>.
  \<^item> A call that does not complete is the value \<open>None\<close>.
  \<^item> The fields \<^verbatim>\<open>h\<close>, \<^verbatim>\<open>u\<close>, \<^verbatim>\<open>v\<close> of the class are \<open>sim_h\<close>, \<open>sim_u\<close>, \<open>sim_v\<close>, and the
    fields \<^verbatim>\<open>x\<close>, \<^verbatim>\<open>y\<close>, \<^verbatim>\<open>u\<close>, \<^verbatim>\<open>v\<close> of a particle are \<open>p_x\<close>, \<open>p_y\<close>, \<open>p_u\<close>, \<open>p_v\<close>, so
    that the short names stay free for variables.
\<close>

subsection \<open>Data\<close>

definition FLUID :: int where "FLUID = 0"
definition AIR :: int where "AIR = 1"
definition SOLID :: int where "SOLID = 2"

record particle =
  p_x :: real
  p_y :: real
  p_u :: real
  p_v :: real

definition Particle :: "real \<Rightarrow> real \<Rightarrow> particle" where
  "Particle x y = \<lparr>p_x = x, p_y = y, p_u = 0, p_v = 0\<rparr>"

record sim =
  density :: real
  gravity :: real
  overRelaxation :: real
  fNumX :: int
  fNumY :: int
  sim_h :: real
  sim_u :: "real list"
  sim_v :: "real list"
  du :: "real list"
  dv :: "real list"
  uNew :: "real list"
  vNew :: "real list"
  uWeight :: "real list"
  vWeight :: "real list"
  pDensity :: "real list"
  cellType :: "int list"
  particles :: "particle list"
  totalTime :: real

subsection \<open>Typed arrays and counted loops\<close>

definition inRange :: "'a list \<Rightarrow> int \<Rightarrow> bool" where
  "inRange a i \<longleftrightarrow> 0 \<le> i \<and> i < int (length a)"

definition rd :: "'a list \<Rightarrow> int \<Rightarrow> 'a" where
  "rd a i = (if inRange a i then a ! nat i else undefined)"

definition wr :: "'a list \<Rightarrow> int \<Rightarrow> 'a \<Rightarrow> 'a list" where
  "wr a i x = (if inRange a i then a[nat i := x] else a)"

text \<open>\<^verbatim>\<open>for (let i = lo; i < n; i++) body\<close>, the body acting on the state.\<close>

function for_loop :: "int \<Rightarrow> int \<Rightarrow> (int \<Rightarrow> 'a \<Rightarrow> 'a) \<Rightarrow> 'a \<Rightarrow> 'a" where
  "for_loop i n body s = (if i < n then for_loop (i + 1) n body (body i s) else s)"
  by pat_completeness auto
termination
  by (relation "measure (\<lambda>(i, n, body, s). nat (n - i))") auto

declare for_loop.simps [simp del]

subsection \<open>Grid access helpers\<close>

definition getUIndex :: "sim \<Rightarrow> int \<Rightarrow> int \<Rightarrow> int" where
  "getUIndex s i j = i + j * (fNumX s + 1)"

definition getVIndex :: "sim \<Rightarrow> int \<Rightarrow> int \<Rightarrow> int" where
  "getVIndex s i j = i + j * fNumX s"

definition getCellIndex :: "sim \<Rightarrow> int \<Rightarrow> int \<Rightarrow> int" where
  "getCellIndex s i j = i + j * fNumX s"

subsection \<open>Construction\<close>

definition initGrid :: "sim \<Rightarrow> sim" where
  "initGrid s =
     for_loop 0 (fNumX s) (\<lambda>i.
       for_loop 0 (fNumY s) (\<lambda>j s.
         let type = (if i = 0 \<or> i = fNumX s - 1 \<or> j = 0 \<or> j = fNumY s - 1
                     then SOLID else AIR)
         in s\<lparr>cellType := wr (cellType s) (i + j * fNumX s) type\<rparr>)) s"

text \<open>
  The two seeding loops of \<^verbatim>\<open>initParticles\<close> step a real counter by \<open>particleSpacing\<close>,
  which need not be positive, so they are partial. \<open>rnd k\<close> is the value of the \<open>k\<close>-th
  call of \<^verbatim>\<open>Math.random()\<close>; one call is made per particle pushed.
\<close>

partial_function (option) seedColumn ::
  "(nat \<Rightarrow> real) \<Rightarrow> real \<Rightarrow> real \<Rightarrow> real \<Rightarrow> real \<Rightarrow> real \<Rightarrow> particle list \<Rightarrow> particle list option"
where
  "seedColumn rnd hh maxH particleSpacing x y ps =
     (if y < maxH then
        (let jitter = (rnd (length ps) - 0.5) * (hh * 0.1)
         in seedColumn rnd hh maxH particleSpacing x (y + particleSpacing)
              (ps @ [Particle (x + jitter) (y + jitter)]))
      else Some ps)"

partial_function (option) seedBlock ::
  "(nat \<Rightarrow> real) \<Rightarrow> real \<Rightarrow> real \<Rightarrow> real \<Rightarrow> real \<Rightarrow> real \<Rightarrow> real \<Rightarrow> particle list \<Rightarrow> particle list option"
where
  "seedBlock rnd hh xEnd startY maxH particleSpacing x ps =
     (if x < xEnd then
        (case seedColumn rnd hh maxH particleSpacing x startY ps of
           None \<Rightarrow> None
         | Some ps' \<Rightarrow> seedBlock rnd hh xEnd startY maxH particleSpacing (x + particleSpacing) ps')
      else Some ps)"

definition initParticles :: "(nat \<Rightarrow> real) \<Rightarrow> sim \<Rightarrow> sim option" where
  "initParticles rnd s =
     (let startX = sim_h s * 2;
          width = of_int (fNumX s - 4) * sim_h s;
          fillPercent = 0.4;
          height = of_int (fNumY s - 2) * sim_h s * fillPercent;
          maxH = of_int (fNumY s - 1) * sim_h s;
          startY = maxH - height;
          particleSpacing = sim_h s * 0.85
      in map_option (\<lambda>ps. s\<lparr>particles := ps\<rparr>)
           (seedBlock rnd (sim_h s) (startX + width) startY maxH particleSpacing startX []))"

datatype construct_error =
    RangeError    \<comment> \<open>thrown by \<^verbatim>\<open>new Float32Array(n)\<close> for a negative or infinite \<open>n\<close>\<close>
  | NaNGrid       \<comment> \<open>no throw, but the grid dimensions are \<^verbatim>\<open>NaN\<close>: not a state of this model\<close>

text \<open>
  \<^verbatim>\<open>new FluidSim(width, height, spacing)\<close>. The constructor does not inspect its arguments.
  Allocation fails when a length is negative; that memory is finite is not modelled.
  With \<open>spacing = 0\<close> the quotients are \<^verbatim>\<open>NaN\<close> (numerator zero; every length is then
  \<^verbatim>\<open>NaN\<close>, read as 0) or infinite (a \<^verbatim>\<open>RangeError\<close>).
\<close>

definition construct :: "real \<Rightarrow> real \<Rightarrow> real \<Rightarrow> (nat \<Rightarrow> real) \<Rightarrow> (construct_error + sim) option" where
  "construct width height spacing rnd =
     (if spacing = 0 then
        (if width = 0 \<or> height = 0 then Some (Inl NaNGrid) else Some (Inl RangeError))
      else
        (let nx = \<lfloor>width / spacing\<rfloor> + 1;
             ny = \<lfloor>height / spacing\<rfloor> + 1;
             uSize = (nx + 1) * ny;
             vSize = nx * (ny + 1);
             cellSize = nx * ny
         in if uSize < 0 \<or> vSize < 0 \<or> cellSize < 0 then Some (Inl RangeError)
            else
              map_option Inr
                (initParticles rnd
                  (initGrid
                    \<lparr>density = 1000, gravity = 2500, overRelaxation = 1.9,
                     fNumX = nx, fNumY = ny, sim_h = spacing,
                     sim_u = replicate (nat uSize) 0, sim_v = replicate (nat vSize) 0,
                     du = replicate (nat uSize) 0, dv = replicate (nat vSize) 0,
                     uNew = replicate (nat uSize) 0, vNew = replicate (nat vSize) 0,
                     uWeight = replicate (nat uSize) 0, vWeight = replicate (nat vSize) 0,
                     pDensity = replicate (nat cellSize) 0,
                     cellType = replicate (nat cellSize) 0,
                     particles = [], totalTime = 0\<rparr>))))"

subsection \<open>Advection, separation and the wall clamp\<close>

text \<open>
  The spatial hash of \<^verbatim>\<open>separateParticles\<close>: \<open>firstHead\<close> has one slot per cell,
  \<open>nextParticle\<close> one per particle; both are \<^verbatim>\<open>Int32Array\<close>s holding \<open>-1\<close> or a particle index.
\<close>

definition fillHash :: "sim \<Rightarrow> real \<Rightarrow> int list \<times> int list \<Rightarrow> int list \<times> int list" where
  "fillHash s invH =
     for_loop 0 (int (length (particles s))) (\<lambda>i (firstHead, nextParticle).
       let p = rd (particles s) i;
           cx = max 0 (min (fNumX s - 1) \<lfloor>p_x p * invH\<rfloor>);
           cy = max 0 (min (fNumY s - 1) \<lfloor>p_y p * invH\<rfloor>);
           cIdx = cx + cy * fNumX s
       in (wr firstHead cIdx i, wr nextParticle i (rd firstHead cIdx)))"

text \<open>The body of the \<^verbatim>\<open>if (neighborIdx !== i)\<close> block: the pair is pushed apart in place.\<close>

definition pushApart :: "real \<Rightarrow> int \<Rightarrow> int \<Rightarrow> particle list \<Rightarrow> particle list" where
  "pushApart radius i neighborIdx ps =
     (let p = rd ps i;
          pn = rd ps neighborIdx;
          dx = p_x p - p_x pn;
          dy = p_y p - p_y pn;
          distSq = dx * dx + dy * dy
      in if distSq < radius * radius \<and> distSq > 0.000001 then
           (let dist = sqrt distSq;
                overlap = radius - dist;
                force = overlap * 0.5;
                fx = (dx / dist) * force;
                fy = (dy / dist) * force;
                ps1 = wr ps i (p\<lparr>p_x := p_x p + fx, p_y := p_y p + fy\<rparr>);
                pn1 = rd ps1 neighborIdx
            in wr ps1 neighborIdx (pn1\<lparr>p_x := p_x pn1 - fx, p_y := p_y pn1 - fy\<rparr>))
         else ps)"

text \<open>\<^verbatim>\<open>while (neighborIdx !== -1) { ...; neighborIdx = nextParticle[neighborIdx]; }\<close>\<close>

partial_function (option) walkChain ::
  "real \<Rightarrow> int list \<Rightarrow> int \<Rightarrow> int \<Rightarrow> particle list \<Rightarrow> particle list option"
where
  "walkChain radius nextParticle i neighborIdx ps =
     (if neighborIdx \<noteq> - 1 then
        walkChain radius nextParticle i (rd nextParticle neighborIdx)
          (if neighborIdx \<noteq> i then pushApart radius i neighborIdx ps else ps)
      else Some ps)"

definition scanNeighbors ::
  "sim \<Rightarrow> real \<Rightarrow> int list \<Rightarrow> int list \<Rightarrow> int \<Rightarrow> particle list option \<Rightarrow> particle list option"
where
  "scanNeighbors s invH firstHead nextParticle i st =
     Option.bind st (\<lambda>ps.
       let p = rd ps i;
           cx = \<lfloor>p_x p * invH\<rfloor>;
           cy = \<lfloor>p_y p * invH\<rfloor>
       in for_loop (cx - 1) (cx + 1 + 1) (\<lambda>nx.
            for_loop (cy - 1) (cy + 1 + 1) (\<lambda>ny st'.
              if nx < 0 \<or> nx \<ge> fNumX s \<or> ny < 0 \<or> ny \<ge> fNumY s then st'
              else Option.bind st'
                     (walkChain (sim_h s) nextParticle i (rd firstHead (nx + ny * fNumX s)))))
            (Some ps))"

text \<open>
  \<^verbatim>\<open>new Int32Array(numCells)\<close> throws for a negative length: the call does not complete.
\<close>

definition separateParticles :: "sim \<Rightarrow> sim option" where
  "separateParticles s =
     (let numCells = fNumX s * fNumY s;
          invH = 1.0 / sim_h s
      in if numCells < 0 then None
         else
           (let (firstHead, nextParticle) =
                  fillHash s invH
                    (replicate (nat numCells) (- 1), replicate (length (particles s)) (- 1))
            in map_option (\<lambda>ps. s\<lparr>particles := ps\<rparr>)
                 (for_loop 0 1 (\<lambda>iter.
                    for_loop 0 (int (length (particles s)))
                      (scanNeighbors s invH firstHead nextParticle))
                  (Some (particles s)))))"

definition applyForces :: "sim \<Rightarrow> real \<Rightarrow> particle \<Rightarrow> particle" where
  "applyForces s dt p =
     (let p1 = p\<lparr>p_v := p_v p + gravity s * dt\<rparr>;
          p2 = p1\<lparr>p_x := p_x p1 + p_u p1 * dt\<rparr>
      in p2\<lparr>p_y := p_y p2 + p_v p2 * dt\<rparr>)"

definition wallClamp :: "real \<Rightarrow> real \<Rightarrow> real \<Rightarrow> particle \<Rightarrow> particle" where
  "wallClamp width height buffer p =
     (let p1 = (if p_x p < buffer then p\<lparr>p_x := buffer, p_u := 0\<rparr> else p);
          p2 = (if p_x p1 > width - buffer then p1\<lparr>p_x := width - buffer, p_u := 0\<rparr> else p1);
          p3 = (if p_y p2 > height - buffer then p2\<lparr>p_y := height - buffer, p_v := 0\<rparr> else p2)
      in if p_y p3 < buffer then p3\<lparr>p_y := buffer, p_v := 0\<rparr> else p3)"

definition advectParticles :: "real \<Rightarrow> sim \<Rightarrow> sim option" where
  "advectParticles dt s =
     (let width = of_int (fNumX s) * sim_h s;
          height = of_int (fNumY s) * sim_h s;
          buffer = sim_h s * 1.1;
          s1 = s\<lparr>particles := map (applyForces s dt) (particles s)\<rparr>
      in map_option
           (\<lambda>s2. s2\<lparr>particles := map (wallClamp width height buffer) (particles s2)\<rparr>)
           (separateParticles s1))"

subsection \<open>Splatting and sampling\<close>

text \<open>
  \<^verbatim>\<open>grid[k] += val * w; weight[k] += w\<close> at one face. The four faces of a stencil are
  written one after the other, as in the source.
\<close>

definition splatFace :: "int \<Rightarrow> real \<Rightarrow> real \<Rightarrow> real list \<times> real list \<Rightarrow> real list \<times> real list" where
  "splatFace k val w = (\<lambda>(grid, weight).
     (wr grid k (rd grid k + val * w), wr weight k (rd weight k + w)))"

definition splatToGrid ::
  "sim \<Rightarrow> real \<Rightarrow> real \<Rightarrow> real \<Rightarrow> real list \<times> real list \<Rightarrow> real \<Rightarrow> real \<Rightarrow> int \<Rightarrow> int
     \<Rightarrow> real list \<times> real list"
where
  "splatToGrid s x y val gw ox oy cols rows =
     (let gx0 = x / sim_h s - ox;
          gy0 = y / sim_h s - oy;
          gx = max 0 (min gx0 (of_int (cols - 2)));
          gy = max 0 (min gy0 (of_int (rows - 2)));
          ix = \<lfloor>gx\<rfloor>;
          iy = \<lfloor>gy\<rfloor>;
          fx = gx - of_int ix;
          fy = gy - of_int iy;
          w00 = (1 - fx) * (1 - fy);
          w10 = fx * (1 - fy);
          w01 = (1 - fx) * fy;
          w11 = fx * fy;
          idx = ix + iy * cols
      in splatFace (idx + cols + 1) val w11
           (splatFace (idx + cols) val w01
             (splatFace (idx + 1) val w10
               (splatFace idx val w00 gw))))"

definition addAt :: "int \<Rightarrow> real \<Rightarrow> real list \<Rightarrow> real list" where
  "addAt k d grid = wr grid k (rd grid k + d)"

definition splatToScalarGrid ::
  "sim \<Rightarrow> real \<Rightarrow> real \<Rightarrow> real \<Rightarrow> real list \<Rightarrow> real \<Rightarrow> real \<Rightarrow> int \<Rightarrow> int \<Rightarrow> real list"
where
  "splatToScalarGrid s x y val grid ox oy cols rows =
     (let gx0 = x / sim_h s - ox;
          gy0 = y / sim_h s - oy;
          gx = max 0 (min gx0 (of_int (cols - 2)));
          gy = max 0 (min gy0 (of_int (rows - 2)));
          ix = \<lfloor>gx\<rfloor>;
          iy = \<lfloor>gy\<rfloor>;
          fx = gx - of_int ix;
          fy = gy - of_int iy;
          idx = ix + iy * cols
      in addAt (idx + cols + 1) (val * fx * fy)
           (addAt (idx + cols) (val * (1 - fx) * fy)
             (addAt (idx + 1) (val * fx * (1 - fy))
               (addAt idx (val * (1 - fx) * (1 - fy)) grid))))"

definition sampleGrid ::
  "sim \<Rightarrow> real \<Rightarrow> real \<Rightarrow> real list \<Rightarrow> real \<Rightarrow> real \<Rightarrow> int \<Rightarrow> int \<Rightarrow> real"
where
  "sampleGrid s x y grid ox oy cols rows =
     (let gx0 = x / sim_h s - ox;
          gy0 = y / sim_h s - oy;
          gx = max 0 (min gx0 (of_int (cols - 2)));
          gy = max 0 (min gy0 (of_int (rows - 2)));
          ix = \<lfloor>gx\<rfloor>;
          iy = \<lfloor>gy\<rfloor>;
          fx = gx - of_int ix;
          fy = gy - of_int iy;
          idx = ix + iy * cols
      in rd grid idx * (1 - fx) * (1 - fy) +
         rd grid (idx + 1) * fx * (1 - fy) +
         rd grid (idx + cols) * (1 - fx) * fy +
         rd grid (idx + cols + 1) * fx * fy)"

subsection \<open>Particles to grid\<close>

text \<open>The body of the inner loop of \<^verbatim>\<open>enforceBoundaries\<close>, at cell \<open>(i, j)\<close>.\<close>

definition enforceCell :: "int \<Rightarrow> int \<Rightarrow> int \<Rightarrow> sim \<Rightarrow> sim" where
  "enforceCell m j i s =
     (if rd (cellType s) (i + j * m) = SOLID then
        (let s1 = s\<lparr>sim_u := wr (sim_u s) (i + j * (m + 1)) 0\<rparr>;
             s2 = s1\<lparr>sim_u := wr (sim_u s1) (i + 1 + j * (m + 1)) 0\<rparr>;
             s3 = s2\<lparr>sim_v := wr (sim_v s2) (i + j * m) 0\<rparr>
         in s3\<lparr>sim_v := wr (sim_v s3) (i + (j + 1) * m) 0\<rparr>)
      else s)"

definition enforceBoundaries :: "sim \<Rightarrow> sim" where
  "enforceBoundaries s =
     (let n = fNumY s; m = fNumX s
      in for_loop 0 n (\<lambda>j. for_loop 0 m (enforceCell m j)) s)"

text \<open>\<^verbatim>\<open>for (i < grid.length) if (weight[i] > 0) grid[i] /= weight[i]\<close>\<close>

definition normalizeGrid :: "real list \<Rightarrow> real list \<Rightarrow> real list" where
  "normalizeGrid weight grid =
     for_loop 0 (int (length grid)) (\<lambda>i g.
       if rd weight i > 0 then wr g i (rd g i / rd weight i) else g) grid"

definition splatParticle :: "sim \<Rightarrow> particle \<Rightarrow> (real list \<times> real list) \<times> (real list \<times> real list)
     \<Rightarrow> (real list \<times> real list) \<times> (real list \<times> real list)" where
  "splatParticle s p = (\<lambda>(uw, vw).
     (splatToGrid s (p_x p) (p_y p) (p_u p) uw 0.0 0.5 (fNumX s + 1) (fNumY s),
      splatToGrid s (p_x p) (p_y p) (p_v p) vw 0.5 0.0 (fNumX s) (fNumY s + 1)))"

text \<open>The transfer up to, and without, the call of \<^verbatim>\<open>enforceBoundaries\<close>.\<close>

definition splatAndNormalize :: "sim \<Rightarrow> sim" where
  "splatAndNormalize s =
     (let u0 = replicate (length (sim_u s)) 0;
          v0 = replicate (length (sim_v s)) 0;
          uW0 = replicate (length (uWeight s)) 0;
          vW0 = replicate (length (vWeight s)) 0;
          ((u1, uW1), (v1, vW1)) = fold (splatParticle s) (particles s) ((u0, uW0), (v0, vW0))
      in s\<lparr>sim_u := normalizeGrid uW1 u1, sim_v := normalizeGrid vW1 v1,
            uWeight := uW1, vWeight := vW1\<rparr>)"

definition transferParticlesToGrid :: "sim \<Rightarrow> sim" where
  "transferParticlesToGrid s = enforceBoundaries (splatAndNormalize s)"

definition calculateParticleDensity :: "sim \<Rightarrow> sim" where
  "calculateParticleDensity s =
     s\<lparr>pDensity :=
         fold (\<lambda>p grid. splatToScalarGrid s (p_x p) (p_y p) 1.0 grid 0.5 0.5 (fNumX s) (fNumY s))
           (particles s) (replicate (length (pDensity s)) 0)\<rparr>"

subsection \<open>The pressure solve\<close>

text \<open>The body of the innermost loop of \<^verbatim>\<open>solveIncompressibility\<close>, at cell \<open>(i, j)\<close>.\<close>

definition solveCell :: "int \<Rightarrow> int \<Rightarrow> sim \<Rightarrow> sim" where
  "solveCell j i s =
     (let cp = overRelaxation s;
          restDensity = 2.5;
          kDensity = 1.0;
          cellIdx = i + j * fNumX s
      in if rd (cellType s) cellIdx = SOLID then s
         else
           (let idxU = i + j * (fNumX s + 1);
                idxV = i + j * fNumX s;
                uLeft = rd (sim_u s) idxU;
                uRight = rd (sim_u s) (idxU + 1);
                vBot = rd (sim_v s) idxV;
                vTop = rd (sim_v s) (idxV + fNumX s);
                div0 = uRight - uLeft + (vTop - vBot);
                density = rd (pDensity s) cellIdx;
                targetDiv = (if density > restDensity then kDensity * (density - restDensity) else 0);
                div1 = div0 - targetDiv
            in if \<bar>div1\<bar> < 0.00001 then s
               else
                 (let sLeft = (if rd (cellType s) (i - 1 + j * fNumX s) = SOLID then 0 else 1 :: int);
                      sRight = (if rd (cellType s) (i + 1 + j * fNumX s) = SOLID then 0 else 1);
                      sBot = (if rd (cellType s) (i + (j - 1) * fNumX s) = SOLID then 0 else 1);
                      sTop = (if rd (cellType s) (i + (j + 1) * fNumX s) = SOLID then 0 else 1);
                      sTot = sLeft + sRight + sBot + sTop
                  in if sTot = 0 then s
                     else
                       (let flux = - (div1 * cp) / of_int sTot;
                            s1 = (if sLeft \<noteq> 0
                                  then s\<lparr>sim_u := wr (sim_u s) idxU (rd (sim_u s) idxU - flux)\<rparr> else s);
                            s2 = (if sRight \<noteq> 0
                                  then s1\<lparr>sim_u := wr (sim_u s1) (idxU + 1) (rd (sim_u s1) (idxU + 1) + flux)\<rparr>
                                  else s1);
                            s3 = (if sBot \<noteq> 0
                                  then s2\<lparr>sim_v := wr (sim_v s2) idxV (rd (sim_v s2) idxV - flux)\<rparr> else s2)
                        in if sTop \<noteq> 0
                           then s3\<lparr>sim_v := wr (sim_v s3) (idxV + fNumX s)
                                              (rd (sim_v s3) (idxV + fNumX s) + flux)\<rparr>
                           else s3))))"

text \<open>One pass of the two inner loops over the interior cells.\<close>

definition solveSweep :: "sim \<Rightarrow> sim" where
  "solveSweep s =
     for_loop 1 (fNumY s - 1) (\<lambda>j s1.
       for_loop 1 (fNumX s1 - 1) (solveCell j) s1) s"

definition solveIncompressibility :: "sim \<Rightarrow> sim" where
  "solveIncompressibility s =
     (let numIters = 30
      in for_loop 0 numIters (\<lambda>iter. solveSweep) s)"

subsection \<open>Grid to particles\<close>

definition blendParticle :: "sim \<Rightarrow> real \<Rightarrow> particle \<Rightarrow> particle" where
  "blendParticle s flipRatio p =
     (let uPIC = sampleGrid s (p_x p) (p_y p) (sim_u s) 0.0 0.5 (fNumX s + 1) (fNumY s);
          vPIC = sampleGrid s (p_x p) (p_y p) (sim_v s) 0.5 0.0 (fNumX s) (fNumY s + 1);
          uOld = sampleGrid s (p_x p) (p_y p) (du s) 0.0 0.5 (fNumX s + 1) (fNumY s);
          vOld = sampleGrid s (p_x p) (p_y p) (dv s) 0.5 0.0 (fNumX s) (fNumY s + 1);
          uFLIP = p_u p + (uPIC - uOld);
          vFLIP = p_v p + (vPIC - vOld)
      in p\<lparr>p_u := uFLIP * flipRatio + uPIC * (1 - flipRatio),
            p_v := vFLIP * flipRatio + vPIC * (1 - flipRatio)\<rparr>)"

definition transferGridToParticles :: "real \<Rightarrow> sim \<Rightarrow> sim" where
  "transferGridToParticles flipRatio s =
     s\<lparr>particles := map (blendParticle s flipRatio) (particles s)\<rparr>"

subsection \<open>One sub-step\<close>

text \<open>
  The wave paddle of \<^verbatim>\<open>integrate\<close>. Its loop \<^verbatim>\<open>for (let j = 1; j < paddleHeight; j++)\<close> has
  the real bound \<open>paddleHeight\<close>; for an integer \<open>j\<close>, \<open>j < paddleHeight\<close> is
  \<open>j < \<lceil>paddleHeight\<rceil>\<close>.
\<close>

definition wavePaddle :: "sim \<Rightarrow> sim" where
  "wavePaddle s =
     (let waveAmp = 400.0;
          waveFreq = 1.0;
          paddleHeight = of_int (fNumY s) * 0.7;
          uForce = waveAmp * sin (totalTime s * waveFreq)
      in for_loop 1 \<lceil>paddleHeight :: real\<rceil> (\<lambda>j s1.
           let idx = 1 + j * (fNumX s1 + 1)
           in s1\<lparr>sim_u := wr (sim_u s1) idx uForce\<rparr>) s)"

text \<open>
  \<^verbatim>\<open>target.set(source)\<close> on typed arrays: the source is copied over the start of the
  target; a source longer than the target is a \<^verbatim>\<open>RangeError\<close>, and the call does not
  complete.
\<close>

definition typedArraySet :: "real list \<Rightarrow> real list \<Rightarrow> real list option" where
  "typedArraySet target source =
     (if length target < length source then None
      else Some (source @ drop (length source) target))"

definition snapshotGrid :: "sim \<Rightarrow> sim option" where
  "snapshotGrid s =
     Option.bind (typedArraySet (du s) (sim_u s)) (\<lambda>du'.
       map_option (\<lambda>dv'. s\<lparr>du := du', dv := dv'\<rparr>) (typedArraySet (dv s) (sim_v s)))"

definition integrate :: "real \<Rightarrow> sim \<Rightarrow> sim option" where
  "integrate dt s =
     Option.bind (advectParticles dt (s\<lparr>totalTime := totalTime s + dt\<rparr>)) (\<lambda>s1.
       map_option (\<lambda>s2. transferGridToParticles 0.95 (solveIncompressibility s2))
         (snapshotGrid
           (wavePaddle
             (calculateParticleDensity
               (transferParticlesToGrid s1)))))"

subsection \<open>Auxiliary notions for the properties\<close>

text \<open>\<open>onlyFaces s t\<close>: the state \<open>t\<close> differs from \<open>s\<close> at most in the contents of the two
  face-velocity arrays.\<close>

definition onlyFaces :: "sim \<Rightarrow> sim \<Rightarrow> bool" where
  "onlyFaces s t \<longleftrightarrow>
     t = s\<lparr>sim_u := sim_u t, sim_v := sim_v t\<rparr> \<and>
     length (sim_u t) = length (sim_u s) \<and> length (sim_v t) = length (sim_v s)"

text \<open>
  A concrete state for instantiating the properties: the grid of five by five cells of
  size 10 that \<^verbatim>\<open>new FluidSim(45, 45, 10)\<close> builds, with the four particles it seeds when
  every jitter is zero.
\<close>

definition exampleSim :: sim where
  "exampleSim =
     \<lparr>density = 1000, gravity = 2500, overRelaxation = 1.9,
      fNumX = 5, fNumY = 5, sim_h = 10,
      sim_u = replicate 30 0, sim_v = replicate 30 0,
      du = replicate 30 0, dv = replicate 30 0,
      uNew = replicate 30 0, vNew = replicate 30 0,
      uWeight = replicate 30 0, vWeight = replicate 30 0,
      pDensity = replicate 25 0,
      cellType = [2, 2, 2, 2, 2,
                  2, 1, 1, 1, 2,
                  2, 1, 1, 1, 2,
                  2, 1, 1, 1, 2,
                  2, 2, 2, 2, 2],
      particles = [Particle 20 28, Particle 20 36.5, Particle 28.5 28, Particle 28.5 36.5],
      totalTime = 0\<rparr>"

text \<open>\<open>cleanAcc\<close>: both accumulator pairs (values, weights) of the particle-to-grid transfer
  have non-negative weights, and no value where the weight is 0.\<close>

definition cleanAcc :: "(real list \<times> real list) \<times> (real list \<times> real list) \<Rightarrow> bool" where
  "cleanAcc st \<longleftrightarrow>
     length (fst (fst st)) = length (snd (fst st)) \<and> length (fst (snd st)) = length (snd (snd st)) \<and>
     (\<forall>i. inRange (snd (fst st)) i \<longrightarrow>
           0 \<le> rd (snd (fst st)) i \<and> (rd (snd (fst st)) i = 0 \<longrightarrow> rd (fst (fst st)) i = 0)) \<and>
     (\<forall>i. inRange (snd (snd st)) i \<longrightarrow>
           0 \<le> rd (snd (snd st)) i \<and> (rd (snd (snd st)) i = 0 \<longrightarrow> rd (fst (snd st)) i = 0))"

text \<open>\<open>facesZero t i j\<close>: the four faces of cell \<open>(i, j)\<close> (left, right, bottom, top in
  array order) all hold 0.\<close>

definition facesZero :: "sim \<Rightarrow> int \<Rightarrow> int \<Rightarrow> bool" where
  "facesZero t i j \<longleftrightarrow>
     rd (sim_u t) (getUIndex t i j) = 0 \<and> rd (sim_u t) (getUIndex t (i + 1) j) = 0 \<and>
     rd (sim_v t) (getVIndex t i j) = 0 \<and> rd (sim_v t) (getVIndex t i (j + 1)) = 0"

text \<open>The array lengths that the constructor allocates for the grid dimensions.\<close>

definition gridSized :: "sim \<Rightarrow> bool" where
  "gridSized s \<longleftrightarrow>
     length (sim_u s) = nat ((fNumX s + 1) * fNumY s) \<and>
     length (sim_v s) = nat (fNumX s * (fNumY s + 1)) \<and>
     length (uWeight s) = length (sim_u s) \<and>
     length (vWeight s) = length (sim_v s) \<and>
     length (pDensity s) = nat (fNumX s * fNumY s) \<and>
     length (cellType s) = nat (fNumX s * fNumY s)"

subsection \<open>The relaxation update as the specification words it\<close>

text \<open>
  One update of cell \<open>(i, j)\<close> in the words of the specification: the divergence of the
  four faces, less the density correction; no change when it is below the epsilon or no
  neighbour is non-solid; otherwise one flux, subtracted from the left and bottom faces and
  added to the right and top faces, each only if the neighbour on that side is non-solid.
\<close>

definition relaxCell_spec :: "int \<Rightarrow> int \<Rightarrow> sim \<Rightarrow> sim" where
  "relaxCell_spec j i s =
     (let restDensity = 2.5;
          correctionGain = 1;
          epsilon = 0.00001;
          leftFace = rd (sim_u s) (getUIndex s i j);
          rightFace = rd (sim_u s) (getUIndex s (i + 1) j);
          bottomFace = rd (sim_v s) (getVIndex s i j);
          topFace = rd (sim_v s) (getVIndex s i (j + 1));
          density = rd (pDensity s) (getCellIndex s i j);
          nonSolid = (\<lambda>a b. rd (cellType s) (getCellIndex s a b) \<noteq> SOLID);
          divergence = (rightFace - leftFace) + (topFace - bottomFace)
                         - max 0 (density - restDensity) * correctionGain;
          neighborCount = int (length (filter id
             [nonSolid (i - 1) j, nonSolid (i + 1) j, nonSolid i (j - 1), nonSolid i (j + 1)]))
      in if \<bar>divergence\<bar> < epsilon \<or> neighborCount = 0 then s
         else
           (let flux = - (divergence * overRelaxation s) / of_int neighborCount
            in s\<lparr>sim_u :=
                   wr (wr (sim_u s) (getUIndex s i j)
                         (if nonSolid (i - 1) j then leftFace - flux else leftFace))
                      (getUIndex s (i + 1) j)
                      (if nonSolid (i + 1) j then rightFace + flux else rightFace),
                 sim_v :=
                   wr (wr (sim_v s) (getVIndex s i j)
                         (if nonSolid i (j - 1) then bottomFace - flux else bottomFace))
                      (getVIndex s i (j + 1))
                      (if nonSolid i (j + 1) then topFace + flux else topFace)\<rparr>))"

text \<open>The four array indices that \<open>sampleGrid\<close> (and \<open>splatToGrid\<close>) address for a point.\<close>

definition stencil :: "sim \<Rightarrow> real \<Rightarrow> real \<Rightarrow> real \<Rightarrow> real \<Rightarrow> int \<Rightarrow> int \<Rightarrow> int list" where
  "stencil s x y ox oy cols rows =
     (let gx = max 0 (min (x / sim_h s - ox) (of_int (cols - 2)));
          gy = max 0 (min (y / sim_h s - oy) (of_int (rows - 2)));
          idx = \<lfloor>gx\<rfloor> + \<lfloor>gy\<rfloor> * cols
      in [idx, idx + 1, idx + cols, idx + cols + 1])"

text \<open>The example state with both velocity components of every particle set to \<open>c\<close>.\<close>

definition uniformSim :: "real \<Rightarrow> sim" where
  "uniformSim c = exampleSim\<lparr>particles := map (\<lambda>p. p\<lparr>p_u := c, p_v := c\<rparr>) (particles exampleSim)\<rparr>"

text \<open>The example grid with cell size \<open>r\<close> and the two particles of the separation
  scenario, at \<open>(0, 0)\<close> and \<open>(0, r / 2)\<close>.\<close>

definition pairSim :: "real \<Rightarrow> sim" where
  "pairSim r = exampleSim\<lparr>sim_h := r, particles := [Particle 0 0, Particle 0 (r / 2)]\<rparr>"

text \<open>A source of random numbers whose every draw is \<open>0.5\<close>: the jitter of \<^verbatim>\<open>initParticles\<close>
  is then zero.\<close>

definition noJitter :: "nat \<Rightarrow> real" where
  "noJitter k = 0.5"


section \<open>Properties\<close>

subsection \<open>Loops and arrays\<close>

lemma for_loop_unfold: "i < n \<Longrightarrow> for_loop i n body s = for_loop (i + 1) n body (body i s)"
  by (subst for_loop.simps) simp

lemma for_loop_done: "\<not> i < n \<Longrightarrow> for_loop i n body s = s"
  by (subst for_loop.simps) simp

lemma for_loop_inv:
  assumes "P s" and "\<And>k t. lo \<le> k \<Longrightarrow> k < n \<Longrightarrow> P t \<Longrightarrow> P (body k t)"
  shows "P (for_loop lo n body s)"
  using assms
proof (induction lo n body s rule: for_loop.induct)
  case (1 i n body s)
  show ?case
  proof (cases "i < n")
    case True
    have "P (for_loop (i + 1) n body (body i s))"
      by (rule "1.IH"[OF True]) (use 1 True in auto)
    then show ?thesis by (simp add: for_loop_unfold True)
  next
    case False
    then show ?thesis using 1 by (simp add: for_loop_done)
  qed
qed

lemma for_loop_inv_idx:
  assumes "Q lo s" and "\<And>k t. lo \<le> k \<Longrightarrow> k < n \<Longrightarrow> Q k t \<Longrightarrow> Q (k + 1) (body k t)"
  shows "Q (max lo n) (for_loop lo n body s)"
  using assms
proof (induction lo n body s rule: for_loop.induct)
  case (1 i n body s)
  show ?case
  proof (cases "i < n")
    case True
    have "Q (max (i + 1) n) (for_loop (i + 1) n body (body i s))"
      by (rule "1.IH"[OF True]) (use 1 True in auto)
    moreover have "max (i + 1) n = max i n" using True by simp
    ultimately show ?thesis by (simp add: for_loop_unfold True)
  next
    case False
    then show ?thesis using 1 by (simp add: for_loop_done max_def)
  qed
qed

lemma length_wr [simp]: "length (wr a i x) = length a"
  by (simp add: wr_def)

lemma inRange_wr [simp]: "inRange (wr a i x) k = inRange a k"
  by (simp add: inRange_def)

lemma rd_wr_same: "inRange a i \<Longrightarrow> rd (wr a i x) i = x"
  by (simp add: rd_def wr_def inRange_def nat_less_iff)

lemma rd_wr_other: "k \<noteq> i \<Longrightarrow> rd (wr a i x) k = rd a k"
  by (auto simp: rd_def wr_def inRange_def nat_eq_iff)

lemma rd_wr: "inRange a k \<Longrightarrow> rd (wr a i x) k = (if k = i then x else rd a k)"
  by (auto simp: rd_wr_same rd_wr_other)

lemma length_pushApart [simp]: "length (pushApart radius i nb ps) = length ps"
  by (simp add: pushApart_def Let_def)

lemma walkChain_length:
  assumes "walkChain radius nxt i nb ps = Some ps'"
  shows "length ps' = length ps"
proof (rule walkChain.raw_induct [where P = "\<lambda>radius nxt i nb ps ps'. length ps' = length ps", OF _ assms], goal_cases)
  case (1 f radius nxt i nb ps ps')
  show ?case
  proof (cases "nb = - 1")
    case True
    with 1(2) show ?thesis by simp
  next
    case False
    with 1(2) have "f radius nxt i (rd nxt nb) (if nb \<noteq> i then pushApart radius i nb ps else ps) = Some ps'"
      by simp
    from 1(1)[OF this] show ?thesis by (simp split: if_splits)
  qed
qed

subsection \<open>Separation: the particle count, and termination of the chain walk\<close>

lemma cell_index_range:
  fixes a b X Y :: int
  assumes "0 \<le> a" "a < X" "0 \<le> b" "b < Y"
  shows "0 \<le> a + b * X" and "a + b * X < X * Y"
proof -
  have X: "0 \<le> X" using assms by simp
  show "0 \<le> a + b * X" using assms X by simp
  have "b * X \<le> (Y - 1) * X"
    by (rule mult_right_mono) (use assms X in auto)
  then have "a + b * X \<le> (X - 1) + (Y - 1) * X" using assms by linarith
  also have "\<dots> = X * Y - 1" by (simp add: algebra_simps)
  finally show "a + b * X < X * Y" by simp
qed

lemma scanNeighbors_length:
  assumes "\<And>ps. st = Some ps \<Longrightarrow> length ps = n"
    and "scanNeighbors s invH fh nxt i st = Some ps'"
  shows "length ps' = n"
proof (cases st)
  case None
  with assms(2) show ?thesis by (simp add: scanNeighbors_def)
next
  case (Some ps)
  define cx where "cx = \<lfloor>p_x (rd ps i) * invH\<rfloor>"
  define cy where "cy = \<lfloor>p_y (rd ps i) * invH\<rfloor>"
  let ?P = "\<lambda>st. \<forall>qs. st = Some qs \<longrightarrow> length qs = n"
  have inner: "?P (for_loop (cy - 1) (cy + 1 + 1) (\<lambda>ny st'.
              if nx < 0 \<or> nx \<ge> fNumX s \<or> ny < 0 \<or> ny \<ge> fNumY s then st'
              else Option.bind st'
                     (walkChain (sim_h s) nxt i (rd fh (nx + ny * fNumX s)))) st0)"
    if "?P st0" for nx st0
    by (rule for_loop_inv [where P = ?P, OF that])
       (auto simp: bind_eq_Some_conv dest: walkChain_length)
  have "?P (for_loop (cx - 1) (cx + 1 + 1) (\<lambda>nx.
            for_loop (cy - 1) (cy + 1 + 1) (\<lambda>ny st'.
              if nx < 0 \<or> nx \<ge> fNumX s \<or> ny < 0 \<or> ny \<ge> fNumY s then st'
              else Option.bind st'
                     (walkChain (sim_h s) nxt i (rd fh (nx + ny * fNumX s)))))
            (Some ps))"
    by (rule for_loop_inv [where P = ?P]) (use Some assms(1) inner in auto)
  moreover have "scanNeighbors s invH fh nxt i st = for_loop (cx - 1) (cx + 1 + 1) (\<lambda>nx.
            for_loop (cy - 1) (cy + 1 + 1) (\<lambda>ny st'.
              if nx < 0 \<or> nx \<ge> fNumX s \<or> ny < 0 \<or> ny \<ge> fNumY s then st'
              else Option.bind st'
                     (walkChain (sim_h s) nxt i (rd fh (nx + ny * fNumX s)))))
            (Some ps)"
    by (simp add: scanNeighbors_def Some Let_def cx_def cy_def)
  ultimately show ?thesis using assms(2) by simp
qed

lemma separateParticles_frame:
  assumes "separateParticles s = Some s'"
  shows "\<exists>ps. s' = s\<lparr>particles := ps\<rparr> \<and> length ps = length (particles s)"
proof -
  let ?n = "length (particles s)"
  let ?P = "\<lambda>st. \<forall>qs. st = Some qs \<longrightarrow> length qs = ?n"
  obtain fh nxt where fh: "fillHash s (1.0 / sim_h s)
       (replicate (nat (fNumX s * fNumY s)) (- 1), replicate ?n (- 1)) = (fh, nxt)"
    by (cases "fillHash s (1.0 / sim_h s)
       (replicate (nat (fNumX s * fNumY s)) (- 1), replicate ?n (- 1))") auto
  have "?P (for_loop 0 1 (\<lambda>iter.
                    for_loop 0 (int ?n) (scanNeighbors s (1.0 / sim_h s) fh nxt))
                  (Some (particles s)))"
  proof (rule for_loop_inv [where P = ?P], goal_cases)
    case 1
    show ?case by simp
  next
    case (2 k t)
    show ?case
      by (rule for_loop_inv [where P = ?P, OF 2(3)]) (auto dest: scanNeighbors_length [rotated])
  qed
  with assms fh show ?thesis
    by (auto simp: separateParticles_def Let_def split: if_splits)
qed

lemma advectParticles_frame:
  assumes "advectParticles dt s = Some s'"
  shows "\<exists>ps. length ps = length (particles s) \<and>
     s' = s\<lparr>particles := map (wallClamp (of_int (fNumX s) * sim_h s)
                                (of_int (fNumY s) * sim_h s) (sim_h s * 1.1)) ps\<rparr>"
proof -
  from assms obtain s2 where s2: "separateParticles (s\<lparr>particles := map (applyForces s dt) (particles s)\<rparr>) = Some s2"
    and s': "s' = s2\<lparr>particles := map (wallClamp (of_int (fNumX s) * sim_h s) (of_int (fNumY s) * sim_h s) (sim_h s * 1.1)) (particles s2)\<rparr>"
    by (auto simp: advectParticles_def Let_def)
  from separateParticles_frame [OF s2] obtain ps where
    ps: "s2 = s\<lparr>particles := ps\<rparr>" "length ps = length (particles s)" by auto
  show ?thesis
    by (rule exI [where x = ps]) (use ps s' in simp)
qed

lemma walkChain_total:
  assumes nxt: "\<And>k. inRange nxt k \<Longrightarrow> - 1 \<le> rd nxt k \<and> rd nxt k < k"
    and "- 1 \<le> nb" "nb < int (length nxt)"
  shows "\<exists>ps'. walkChain radius nxt i nb ps = Some ps'"
  using assms(2,3)
proof (induction "nat (nb + 1)" arbitrary: nb ps rule: less_induct)
  case less
  show ?case
  proof (cases "nb = - 1")
    case True
    then show ?thesis by (subst walkChain.simps) simp
  next
    case False
    with less.prems have r: "inRange nxt nb" by (simp add: inRange_def)
    from nxt [OF r] have b: "- 1 \<le> rd nxt nb" "rd nxt nb < nb" by auto
    have "\<exists>ps'. walkChain radius nxt i (rd nxt nb)
            (if nb \<noteq> i then pushApart radius i nb ps else ps) = Some ps'"
      by (rule less.hyps) (use b less.prems in auto)
    then show ?thesis using False by (subst walkChain.simps) simp
  qed
qed

lemma fillHash_inv:
  assumes X: "1 \<le> fNumX s" and Y: "1 \<le> fNumY s"
    and fh: "fillHash s invH (replicate (nat (fNumX s * fNumY s)) (- 1),
                             replicate (length (particles s)) (- 1)) = (fh, nxt)"
  shows "length fh = nat (fNumX s * fNumY s)"
    and "length nxt = length (particles s)"
    and "\<And>k. inRange nxt k \<Longrightarrow> - 1 \<le> rd nxt k \<and> rd nxt k < k"
    and "\<And>c. inRange fh c \<Longrightarrow> - 1 \<le> rd fh c \<and> rd fh c < int (length (particles s))"
proof -
  let ?n = "int (length (particles s))"
  let ?N = "nat (fNumX s * fNumY s)"
  define Q where "Q = (\<lambda>(i :: int) (hn :: int list \<times> int list).
     length (fst hn) = ?N \<and> length (snd hn) = length (particles s) \<and>
     (\<forall>k. inRange (snd hn) k \<longrightarrow> - 1 \<le> rd (snd hn) k \<and> rd (snd hn) k < k) \<and>
     (\<forall>c. inRange (fst hn) c \<longrightarrow> - 1 \<le> rd (fst hn) c \<and> rd (fst hn) c < i))"
  have "Q (max 0 ?n) (for_loop 0 ?n (\<lambda>i (firstHead, nextParticle).
       let p = rd (particles s) i;
           cx = max 0 (min (fNumX s - 1) \<lfloor>p_x p * invH\<rfloor>);
           cy = max 0 (min (fNumY s - 1) \<lfloor>p_y p * invH\<rfloor>);
           cIdx = cx + cy * fNumX s
       in (wr firstHead cIdx i, wr nextParticle i (rd firstHead cIdx)))
       (replicate ?N (- 1), replicate (length (particles s)) (- 1)))"
  proof (rule for_loop_inv_idx [where Q = Q], goal_cases)
    case 1
    show ?case by (auto simp: Q_def rd_def inRange_def)
  next
    case (2 k t)
    obtain a b where t: "t = (a, b)" by (cases t)
    define cx where "cx = max 0 (min (fNumX s - 1) \<lfloor>p_x (rd (particles s) k) * invH\<rfloor>)"
    define cy where "cy = max 0 (min (fNumY s - 1) \<lfloor>p_y (rd (particles s) k) * invH\<rfloor>)"
    have cx: "0 \<le> cx" "cx < fNumX s" using X by (auto simp: cx_def)
    have cy: "0 \<le> cy" "cy < fNumY s" using Y by (auto simp: cy_def)
    from 2(3) have la: "length a = ?N" and lb: "length b = length (particles s)"
      and b: "\<And>j. inRange b j \<Longrightarrow> - 1 \<le> rd b j \<and> rd b j < j"
      and a: "\<And>c. inRange a c \<Longrightarrow> - 1 \<le> rd a c \<and> rd a c < k"
      by (auto simp: Q_def t)
    have ra: "inRange a (cx + cy * fNumX s)"
      using cell_index_range [OF cx cy] la by (simp add: inRange_def)
    have rk: "inRange b k" using 2 lb by (simp add: inRange_def)
    have "Q (k + 1) (wr a (cx + cy * fNumX s) k, wr b k (rd a (cx + cy * fNumX s)))"
      unfolding Q_def using la lb a [OF ra] a b rk
      by (auto simp: rd_wr less_imp_le)
    then show ?case by (simp add: t Let_def cx_def cy_def)
  qed
  then have "Q (max 0 ?n) (fh, nxt)" using fh by (simp add: fillHash_def)
  then show "length fh = nat (fNumX s * fNumY s)"
    and "length nxt = length (particles s)"
    and "\<And>k. inRange nxt k \<Longrightarrow> - 1 \<le> rd nxt k \<and> rd nxt k < k"
    and "\<And>c. inRange fh c \<Longrightarrow> - 1 \<le> rd fh c \<and> rd fh c < int (length (particles s))"
    by (auto simp: Q_def)
qed

lemma scanNeighbors_total:
  assumes X: "1 \<le> fNumX s" and Y: "1 \<le> fNumY s"
    and lfh: "length fh = nat (fNumX s * fNumY s)"
    and nxt: "\<And>k. inRange nxt k \<Longrightarrow> - 1 \<le> rd nxt k \<and> rd nxt k < k"
    and fh: "\<And>c. inRange fh c \<Longrightarrow> - 1 \<le> rd fh c \<and> rd fh c < int (length nxt)"
    and st: "st \<noteq> None"
  shows "scanNeighbors s invH fh nxt i st \<noteq> None"
proof -
  from st obtain ps where ps: "st = Some ps" by auto
  let ?P = "\<lambda>st :: particle list option. st \<noteq> None"
  have cell: "?P (if nx < 0 \<or> nx \<ge> fNumX s \<or> ny < 0 \<or> ny \<ge> fNumY s then st'
              else Option.bind st'
                     (walkChain (sim_h s) nxt i (rd fh (nx + ny * fNumX s))))"
    if "?P st'" for nx ny st'
  proof (cases "nx < 0 \<or> nx \<ge> fNumX s \<or> ny < 0 \<or> ny \<ge> fNumY s")
    case True
    with that show ?thesis by simp
  next
    case False
    then have b: "0 \<le> nx" "nx < fNumX s" "0 \<le> ny" "ny < fNumY s" by auto
    have "inRange fh (nx + ny * fNumX s)"
      using cell_index_range [OF b] lfh by (simp add: inRange_def)
    from fh [OF this] have r: "- 1 \<le> rd fh (nx + ny * fNumX s)"
      "rd fh (nx + ny * fNumX s) < int (length nxt)" by auto
    from that obtain qs where qs: "st' = Some qs" by auto
    from walkChain_total [of nxt, OF nxt r]
    obtain qs' where "walkChain (sim_h s) nxt i (rd fh (nx + ny * fNumX s)) qs = Some qs'"
      by blast
    with False qs show ?thesis by simp
  qed
  have "?P (for_loop (cx - 1) (cx + 1 + 1) (\<lambda>nx.
            for_loop (cy - 1) (cy + 1 + 1) (\<lambda>ny st'.
              if nx < 0 \<or> nx \<ge> fNumX s \<or> ny < 0 \<or> ny \<ge> fNumY s then st'
              else Option.bind st'
                     (walkChain (sim_h s) nxt i (rd fh (nx + ny * fNumX s)))))
            (Some ps))" for cx cy
    by (rule for_loop_inv [where P = ?P], simp, rule for_loop_inv [where P = ?P], assumption)
       (rule cell)
  then show ?thesis by (simp add: scanNeighbors_def ps Let_def)
qed

lemma separateParticles_total:
  assumes X: "1 \<le> fNumX s" and Y: "1 \<le> fNumY s"
  shows "\<exists>s'. separateParticles s = Some s'"
proof -
  let ?n = "length (particles s)"
  let ?P = "\<lambda>st :: particle list option. st \<noteq> None"
  obtain fh nxt where fh: "fillHash s (1.0 / sim_h s)
       (replicate (nat (fNumX s * fNumY s)) (- 1), replicate ?n (- 1)) = (fh, nxt)"
    by (cases "fillHash s (1.0 / sim_h s)
       (replicate (nat (fNumX s * fNumY s)) (- 1), replicate ?n (- 1))") auto
  note inv = fillHash_inv [OF X Y fh]
  have scan: "?P (scanNeighbors s (1.0 / sim_h s) fh nxt i st)" if "?P st" for i st
    by (rule scanNeighbors_total [OF X Y inv(1)]) (use inv that in auto)
  have "?P (for_loop 0 1 (\<lambda>iter.
                    for_loop 0 (int ?n) (scanNeighbors s (1.0 / sim_h s) fh nxt))
                  (Some (particles s)))"
    by (rule for_loop_inv [where P = ?P], simp, rule for_loop_inv [where P = ?P], assumption)
       (rule scan)
  moreover have "0 \<le> fNumX s * fNumY s" using X Y by simp
  ultimately show ?thesis using fh
    by (auto simp: separateParticles_def Let_def)
qed

lemma advectParticles_total:
  assumes "1 \<le> fNumX s" and "1 \<le> fNumY s"
  shows "\<exists>s'. advectParticles dt s = Some s'"
proof -
  have "\<exists>s'. separateParticles (s\<lparr>particles := map (applyForces s dt) (particles s)\<rparr>) = Some s'"
    by (rule separateParticles_total) (use assms in auto)
  then show ?thesis by (auto simp: advectParticles_def Let_def)
qed

subsection \<open>What the grid phases leave alone\<close>

lemma onlyFacesI:
  "t = s\<lparr>sim_u := a, sim_v := b\<rparr> \<Longrightarrow> length a = length (sim_u s) \<Longrightarrow> length b = length (sim_v s)
     \<Longrightarrow> onlyFaces s t"
  by (simp add: onlyFaces_def)

lemma onlyFacesD:
  assumes "onlyFaces s t"
  shows "\<exists>a b. t = s\<lparr>sim_u := a, sim_v := b\<rparr> \<and> length a = length (sim_u s) \<and> length b = length (sim_v s)"
  using assms unfolding onlyFaces_def by blast

lemma onlyFaces_refl [simp]: "onlyFaces s s"
  by (simp add: onlyFaces_def)

lemma onlyFaces_trans:
  assumes "onlyFaces s t" and "onlyFaces t r"
  shows "onlyFaces s r"
proof -
  from onlyFacesD [OF assms(1)] obtain a b where
    t: "t = s\<lparr>sim_u := a, sim_v := b\<rparr>" "length a = length (sim_u s)" "length b = length (sim_v s)"
    by blast
  from onlyFacesD [OF assms(2)] obtain c d where
    r: "r = t\<lparr>sim_u := c, sim_v := d\<rparr>" "length c = length (sim_u t)" "length d = length (sim_v t)"
    by blast
  show ?thesis
    by (rule onlyFacesI [where a = c and b = d]) (use t r in auto)
qed

lemma onlyFaces_fields:
  assumes "onlyFaces s t"
  shows "particles t = particles s" "fNumX t = fNumX s" "fNumY t = fNumY s" "sim_h t = sim_h s"
    "cellType t = cellType s" "pDensity t = pDensity s" "du t = du s" "dv t = dv s"
    "uWeight t = uWeight s" "vWeight t = vWeight s" "overRelaxation t = overRelaxation s"
    "totalTime t = totalTime s" "gravity t = gravity s"
    "length (sim_u t) = length (sim_u s)" "length (sim_v t) = length (sim_v s)"
proof -
  from onlyFacesD [OF assms] obtain a b where
    t: "t = s\<lparr>sim_u := a, sim_v := b\<rparr>" "length a = length (sim_u s)" "length b = length (sim_v s)"
    by blast
  show "particles t = particles s" "fNumX t = fNumX s" "fNumY t = fNumY s" "sim_h t = sim_h s"
    "cellType t = cellType s" "pDensity t = pDensity s" "du t = du s" "dv t = dv s"
    "uWeight t = uWeight s" "vWeight t = vWeight s" "overRelaxation t = overRelaxation s"
    "totalTime t = totalTime s" "gravity t = gravity s"
    "length (sim_u t) = length (sim_u s)" "length (sim_v t) = length (sim_v s)"
    using t by simp_all
qed

lemma for_loop_onlyFaces:
  assumes "\<And>k t. lo \<le> k \<Longrightarrow> k < n \<Longrightarrow> onlyFaces s t \<Longrightarrow> onlyFaces t (body k t)"
  shows "onlyFaces s (for_loop lo n body s)"
  by (rule for_loop_inv [where P = "onlyFaces s"]) (auto intro: onlyFaces_trans assms)

lemma enforceCell_onlyFaces: "onlyFaces s (enforceCell m j i s)"
  by (simp add: onlyFaces_def enforceCell_def Let_def)

lemma enforceBoundaries_onlyFaces: "onlyFaces s (enforceBoundaries s)"
  unfolding enforceBoundaries_def Let_def
  by (rule for_loop_onlyFaces, rule for_loop_onlyFaces) (rule enforceCell_onlyFaces)

lemma solveCell_onlyFaces: "onlyFaces s (solveCell j i s)"
  by (simp add: onlyFaces_def solveCell_def Let_def)

lemma solveSweep_onlyFaces: "onlyFaces s (solveSweep s)"
  unfolding solveSweep_def
  by (rule for_loop_onlyFaces, rule for_loop_onlyFaces) (rule solveCell_onlyFaces)

lemma solveIncompressibility_onlyFaces: "onlyFaces s (solveIncompressibility s)"
  unfolding solveIncompressibility_def Let_def
  by (rule for_loop_onlyFaces) (rule solveSweep_onlyFaces)

lemma wavePaddle_onlyFaces: "onlyFaces s (wavePaddle s)"
  unfolding wavePaddle_def Let_def
  by (rule for_loop_onlyFaces) (simp add: onlyFaces_def)

subsection \<open>Splatting: weights are non-negative, and a face without weight has no value\<close>

lemma rd_wr_cases: "rd (wr a i x) k = (if k = i \<and> inRange a i then x else rd a k)"
  by (auto simp: rd_wr_same rd_wr_other) (simp add: wr_def)

lemma rd_replicate [simp]: "inRange (replicate n x) i \<Longrightarrow> rd (replicate n x) i = x"
  by (simp add: rd_def inRange_def nat_less_iff)

lemma inRange_replicate [simp]: "inRange (replicate n x) i \<longleftrightarrow> 0 \<le> i \<and> i < int n"
  by (simp add: inRange_def)

lemma inRange_same_length: "length a = length b \<Longrightarrow> inRange a i = inRange b i"
  by (simp add: inRange_def)

lemma frac_weights:
  fixes g :: real
  shows "0 \<le> g - of_int \<lfloor>g\<rfloor>" and "0 \<le> 1 - (g - of_int \<lfloor>g\<rfloor>)"
  by linarith+

lemma splatFace_length [simp]:
  "length (fst (splatFace k val w gw)) = length (fst gw)"
  "length (snd (splatFace k val w gw)) = length (snd gw)"
  by (simp_all add: splatFace_def split: prod.splits)

lemma splatToGrid_length [simp]:
  "length (fst (splatToGrid s x y val gw ox oy cols rows)) = length (fst gw)"
  "length (snd (splatToGrid s x y val gw ox oy cols rows)) = length (snd gw)"
  by (simp_all add: splatToGrid_def Let_def)

text \<open>The invariant of the accumulation: every weight is at least 0, and where the
  weight is 0 the accumulated value is 0.\<close>

lemma splatFace_clean:
  assumes "0 \<le> w" and "length (fst gw) = length (snd gw)"
    and "\<And>i. inRange (snd gw) i \<Longrightarrow> 0 \<le> rd (snd gw) i \<and> (rd (snd gw) i = 0 \<longrightarrow> rd (fst gw) i = 0)"
    and "inRange (snd gw) i"
  shows "0 \<le> rd (snd (splatFace k val w gw)) i \<and>
         (rd (snd (splatFace k val w gw)) i = 0 \<longrightarrow> rd (fst (splatFace k val w gw)) i = 0)"
proof -
  obtain g wt where gw: "gw = (g, wt)" by (cases gw)
  have r: "inRange g i = inRange wt i" for i
    using assms(2) by (simp add: gw inRange_def)
  from assms(3) [OF assms(4)] have a: "0 \<le> rd wt i" "rd wt i = 0 \<Longrightarrow> rd g i = 0"
    by (simp_all add: gw)
  show ?thesis
  proof (cases "i = k")
    case True
    have "rd wt k + w = 0 \<Longrightarrow> rd g k + val * w = 0"
      using a assms(1) True by (simp add: add_nonneg_eq_0_iff)
    then show ?thesis using a assms(1,4) True
      by (simp add: gw splatFace_def rd_wr_cases r)
  next
    case False
    then show ?thesis using a by (simp add: gw splatFace_def rd_wr_cases)
  qed
qed

lemma splatToGrid_clean:
  assumes "length (fst gw) = length (snd gw)"
    and "\<And>i. inRange (snd gw) i \<Longrightarrow> 0 \<le> rd (snd gw) i \<and> (rd (snd gw) i = 0 \<longrightarrow> rd (fst gw) i = 0)"
    and "inRange (snd gw) i"
  shows "0 \<le> rd (snd (splatToGrid s x y val gw ox oy cols rows)) i \<and>
         (rd (snd (splatToGrid s x y val gw ox oy cols rows)) i = 0 \<longrightarrow>
            rd (fst (splatToGrid s x y val gw ox oy cols rows)) i = 0)"
proof -
  define gx :: real where "gx = max 0 (min (x / sim_h s - ox) (of_int (cols - 2)))"
  define gy :: real where "gy = max 0 (min (y / sim_h s - oy) (of_int (rows - 2)))"
  define fx where "fx = gx - of_int \<lfloor>gx\<rfloor>"
  define fy where "fy = gy - of_int \<lfloor>gy\<rfloor>"
  define idx where "idx = \<lfloor>gx\<rfloor> + \<lfloor>gy\<rfloor> * cols"
  have f: "0 \<le> fx" "0 \<le> 1 - fx" "0 \<le> fy" "0 \<le> 1 - fy"
    unfolding fx_def fy_def by (rule frac_weights)+
  let ?P = "\<lambda>gw. length (fst gw) = length (snd gw) \<and> length (snd gw) = length (snd gw0) \<and>
     (\<forall>i. inRange (snd gw) i \<longrightarrow> 0 \<le> rd (snd gw) i \<and> (rd (snd gw) i = 0 \<longrightarrow> rd (fst gw) i = 0))"
  have step: "length (fst (splatFace k val w gw')) = length (snd (splatFace k val w gw')) \<and>
     (\<forall>i. inRange (snd (splatFace k val w gw')) i \<longrightarrow> 0 \<le> rd (snd (splatFace k val w gw')) i \<and>
        (rd (snd (splatFace k val w gw')) i = 0 \<longrightarrow> rd (fst (splatFace k val w gw')) i = 0))"
    if "0 \<le> w" and "length (fst gw') = length (snd gw') \<and>
     (\<forall>i. inRange (snd gw') i \<longrightarrow> 0 \<le> rd (snd gw') i \<and> (rd (snd gw') i = 0 \<longrightarrow> rd (fst gw') i = 0))"
    for k w gw'
  proof (intro conjI allI impI)
    show "length (fst (splatFace k val w gw')) = length (snd (splatFace k val w gw'))"
      using that by simp
  next
    fix i assume "inRange (snd (splatFace k val w gw')) i"
    then have i: "inRange (snd gw') i" by (simp add: inRange_def)
    from splatFace_clean [where gw = gw' and k = k and val = val, OF that(1) _ _ i] that(2)
    show "0 \<le> rd (snd (splatFace k val w gw')) i" by simp
  next
    fix i assume "inRange (snd (splatFace k val w gw')) i" and z: "rd (snd (splatFace k val w gw')) i = 0"
    then have i: "inRange (snd gw') i" by (simp add: inRange_def)
    from splatFace_clean [where gw = gw' and k = k and val = val, OF that(1) _ _ i] that(2) z
    show "rd (fst (splatFace k val w gw')) i = 0" by simp
  qed
  have e: "splatToGrid s x y val gw ox oy cols rows =
      splatFace (idx + cols + 1) val (fx * fy)
           (splatFace (idx + cols) val ((1 - fx) * fy)
             (splatFace (idx + 1) val (fx * (1 - fy))
               (splatFace idx val ((1 - fx) * (1 - fy)) gw)))"
    by (simp add: splatToGrid_def Let_def gx_def gy_def fx_def fy_def idx_def)
  have 0: "length (fst gw) = length (snd gw) \<and>
     (\<forall>i. inRange (snd gw) i \<longrightarrow> 0 \<le> rd (snd gw) i \<and> (rd (snd gw) i = 0 \<longrightarrow> rd (fst gw) i = 0))"
    using assms(1,2) by blast
  have w: "0 \<le> (1 - fx) * (1 - fy)" "0 \<le> fx * (1 - fy)" "0 \<le> (1 - fx) * fy" "0 \<le> fx * fy"
    using f by simp_all
  note s1 = step [OF w(1) 0]
  note s2 = step [OF w(2) s1]
  note s3 = step [OF w(3) s2]
  note s4 = step [OF w(4) s3]
  have "inRange (snd (splatToGrid s x y val gw ox oy cols rows)) i"
    using assms(3) by (simp add: inRange_def)
  then show ?thesis using s4 unfolding e by blast
qed

lemma normalizeGrid_rd:
  "length (normalizeGrid weight grid) = length grid \<and>
   (\<forall>i. inRange grid i \<longrightarrow>
      rd (normalizeGrid weight grid) i =
        (if rd weight i > 0 then rd grid i / rd weight i else rd grid i))"
proof -
  define Q where "Q = (\<lambda>(k :: int) g. length g = length grid \<and>
     (\<forall>i. inRange grid i \<longrightarrow>
        rd g i = (if i < k \<and> rd weight i > 0 then rd grid i / rd weight i else rd grid i)))"
  have "Q (max 0 (int (length grid))) (normalizeGrid weight grid)"
    unfolding normalizeGrid_def
  proof (rule for_loop_inv_idx [where Q = Q], goal_cases)
    case 1
    show ?case by (auto simp: Q_def inRange_def)
  next
    case (2 k t)
    then have l: "length t = length grid"
      and t: "\<And>i. inRange grid i \<Longrightarrow>
        rd t i = (if i < k \<and> rd weight i > 0 then rd grid i / rd weight i else rd grid i)"
      by (auto simp: Q_def)
    have k: "inRange grid k" "inRange t k" using 2(1,2) l by (simp_all add: inRange_def)
    have "rd t k = rd grid k" using t [OF k(1)] by simp
    then show ?case using l t k
      by (auto simp: Q_def rd_wr_cases)
  qed
  then show ?thesis by (auto simp: Q_def inRange_def)
qed

lemma splatParticle_clean:
  assumes "length (fst (fst st)) = length (snd (fst st))" "length (fst (snd st)) = length (snd (snd st))"
    and "\<And>i. inRange (snd (fst st)) i \<Longrightarrow>
           0 \<le> rd (snd (fst st)) i \<and> (rd (snd (fst st)) i = 0 \<longrightarrow> rd (fst (fst st)) i = 0)"
    and "\<And>i. inRange (snd (snd st)) i \<Longrightarrow>
           0 \<le> rd (snd (snd st)) i \<and> (rd (snd (snd st)) i = 0 \<longrightarrow> rd (fst (snd st)) i = 0)"
  shows "length (fst (fst (splatParticle s p st))) = length (fst (fst st))"
    and "length (snd (fst (splatParticle s p st))) = length (snd (fst st))"
    and "length (fst (snd (splatParticle s p st))) = length (fst (snd st))"
    and "length (snd (snd (splatParticle s p st))) = length (snd (snd st))"
    and "\<And>i. inRange (snd (fst st)) i \<Longrightarrow>
           0 \<le> rd (snd (fst (splatParticle s p st))) i \<and>
           (rd (snd (fst (splatParticle s p st))) i = 0 \<longrightarrow> rd (fst (fst (splatParticle s p st))) i = 0)"
    and "\<And>i. inRange (snd (snd st)) i \<Longrightarrow>
           0 \<le> rd (snd (snd (splatParticle s p st))) i \<and>
           (rd (snd (snd (splatParticle s p st))) i = 0 \<longrightarrow> rd (fst (snd (splatParticle s p st))) i = 0)"
proof -
  obtain uw vw where st: "st = (uw, vw)" by (cases st)
  show "length (fst (fst (splatParticle s p st))) = length (fst (fst st))"
    "length (snd (fst (splatParticle s p st))) = length (snd (fst st))"
    "length (fst (snd (splatParticle s p st))) = length (fst (snd st))"
    "length (snd (snd (splatParticle s p st))) = length (snd (snd st))"
    by (simp_all add: st splatParticle_def)
  show "0 \<le> rd (snd (fst (splatParticle s p st))) i \<and>
           (rd (snd (fst (splatParticle s p st))) i = 0 \<longrightarrow> rd (fst (fst (splatParticle s p st))) i = 0)"
    if "inRange (snd (fst st)) i" for i
    using splatToGrid_clean [where gw = uw and i = i] assms(1,3) that
    by (simp add: st splatParticle_def)
  show "0 \<le> rd (snd (snd (splatParticle s p st))) i \<and>
           (rd (snd (snd (splatParticle s p st))) i = 0 \<longrightarrow> rd (fst (snd (splatParticle s p st))) i = 0)"
    if "inRange (snd (snd st)) i" for i
    using splatToGrid_clean [where gw = vw and i = i] assms(2,4) that
    by (simp add: st splatParticle_def)
qed

lemma splatParticle_cleanAcc: "cleanAcc st \<Longrightarrow> cleanAcc (splatParticle s p st)"
  unfolding cleanAcc_def
  apply (intro conjI allI impI)
  subgoal using splatParticle_clean(1,2) [of st s p] by simp
  subgoal using splatParticle_clean(3,4) [of st s p] by simp
  subgoal for i using splatParticle_clean(5) [of st i s p] splatParticle_clean(2) [of st s p]
    by (simp add: inRange_def)
  subgoal for i using splatParticle_clean(5) [of st i s p] splatParticle_clean(2) [of st s p]
    by (simp add: inRange_def)
  subgoal for i using splatParticle_clean(6) [of st i s p] splatParticle_clean(4) [of st s p]
    by (simp add: inRange_def)
  subgoal for i using splatParticle_clean(6) [of st i s p] splatParticle_clean(4) [of st s p]
    by (simp add: inRange_def)
  done

lemma fold_splatParticle_cleanAcc:
  "cleanAcc st \<Longrightarrow> cleanAcc (fold (splatParticle s) ps st)"
  by (induction ps arbitrary: st) (simp_all add: splatParticle_cleanAcc)

lemma fold_splatParticle_length:
  "length (fst (fst (fold (splatParticle s) ps st))) = length (fst (fst st)) \<and>
   length (snd (fst (fold (splatParticle s) ps st))) = length (snd (fst st)) \<and>
   length (fst (snd (fold (splatParticle s) ps st))) = length (fst (snd st)) \<and>
   length (snd (snd (fold (splatParticle s) ps st))) = length (snd (snd st))"
  by (induction ps arbitrary: st) (simp_all add: splatParticle_def split: prod.splits)

subsection \<open>Boundary enforcement writes zeros only\<close>

lemma enforceCell_zero_or_same:
  "rd (sim_u (enforceCell m j i t)) k = 0 \<or> rd (sim_u (enforceCell m j i t)) k = rd (sim_u t) k"
  "rd (sim_v (enforceCell m j i t)) k = 0 \<or> rd (sim_v (enforceCell m j i t)) k = rd (sim_v t) k"
  by (auto simp: enforceCell_def Let_def rd_wr_cases)

lemma enforceBoundaries_zero_or_same:
  "(\<forall>k. rd (sim_u (enforceBoundaries s)) k = 0 \<or> rd (sim_u (enforceBoundaries s)) k = rd (sim_u s) k) \<and>
   (\<forall>k. rd (sim_v (enforceBoundaries s)) k = 0 \<or> rd (sim_v (enforceBoundaries s)) k = rd (sim_v s) k)"
proof -
  let ?P = "\<lambda>t. (\<forall>k. rd (sim_u t) k = 0 \<or> rd (sim_u t) k = rd (sim_u s) k) \<and>
                 (\<forall>k. rd (sim_v t) k = 0 \<or> rd (sim_v t) k = rd (sim_v s) k)"
  have cell: "?P (enforceCell m j i t)" if "?P t" for m j i t
  proof (intro conjI allI)
    fix k
    show "rd (sim_u (enforceCell m j i t)) k = 0 \<or> rd (sim_u (enforceCell m j i t)) k = rd (sim_u s) k"
      using enforceCell_zero_or_same(1) [of m j i t k] that by auto
    show "rd (sim_v (enforceCell m j i t)) k = 0 \<or> rd (sim_v (enforceCell m j i t)) k = rd (sim_v s) k"
      using enforceCell_zero_or_same(2) [of m j i t k] that by auto
  qed
  show ?thesis
    unfolding enforceBoundaries_def Let_def
    by (rule for_loop_inv [where P = ?P], simp, rule for_loop_inv [where P = ?P], assumption)
       (rule cell)
qed

subsection \<open>Normalisation\<close>

lemma splatAndNormalize_fields:
  "uWeight (splatAndNormalize s) = snd (fst (fold (splatParticle s) (particles s)
       ((replicate (length (sim_u s)) 0, replicate (length (uWeight s)) 0),
        (replicate (length (sim_v s)) 0, replicate (length (vWeight s)) 0))))"
  "vWeight (splatAndNormalize s) = snd (snd (fold (splatParticle s) (particles s)
       ((replicate (length (sim_u s)) 0, replicate (length (uWeight s)) 0),
        (replicate (length (sim_v s)) 0, replicate (length (vWeight s)) 0))))"
  "sim_u (splatAndNormalize s) = normalizeGrid (uWeight (splatAndNormalize s))
     (fst (fst (fold (splatParticle s) (particles s)
       ((replicate (length (sim_u s)) 0, replicate (length (uWeight s)) 0),
        (replicate (length (sim_v s)) 0, replicate (length (vWeight s)) 0)))))"
  "sim_v (splatAndNormalize s) = normalizeGrid (vWeight (splatAndNormalize s))
     (fst (snd (fold (splatParticle s) (particles s)
       ((replicate (length (sim_u s)) 0, replicate (length (uWeight s)) 0),
        (replicate (length (sim_v s)) 0, replicate (length (vWeight s)) 0)))))"
  "cellType (splatAndNormalize s) = cellType s" "fNumX (splatAndNormalize s) = fNumX s"
  "fNumY (splatAndNormalize s) = fNumY s" "sim_h (splatAndNormalize s) = sim_h s"
  "pDensity (splatAndNormalize s) = pDensity s" "du (splatAndNormalize s) = du s"
  "dv (splatAndNormalize s) = dv s"
  by (simp_all add: splatAndNormalize_def Let_def split: prod.splits)

lemma transferParticlesToGrid_weights [simp]:
  "uWeight (transferParticlesToGrid s) = uWeight (splatAndNormalize s)"
  "vWeight (transferParticlesToGrid s) = vWeight (splatAndNormalize s)"
  using onlyFaces_fields(9,10) [OF enforceBoundaries_onlyFaces, of "splatAndNormalize s"]
  by (simp_all add: transferParticlesToGrid_def)

lemma splatAndNormalize_zero_weight:
  assumes "length (uWeight s) = length (sim_u s)" and "length (vWeight s) = length (sim_v s)"
  shows "inRange (sim_u s) i \<Longrightarrow> 0 \<le> rd (uWeight (splatAndNormalize s)) i"
    and "inRange (sim_u s) i \<Longrightarrow> rd (uWeight (splatAndNormalize s)) i = 0 \<Longrightarrow>
           rd (sim_u (splatAndNormalize s)) i = 0"
    and "inRange (sim_v s) i \<Longrightarrow> 0 \<le> rd (vWeight (splatAndNormalize s)) i"
    and "inRange (sim_v s) i \<Longrightarrow> rd (vWeight (splatAndNormalize s)) i = 0 \<Longrightarrow>
           rd (sim_v (splatAndNormalize s)) i = 0"
proof -
  let ?init = "((replicate (length (sim_u s)) (0 :: real), replicate (length (uWeight s)) (0 :: real)),
        (replicate (length (sim_v s)) (0 :: real), replicate (length (vWeight s)) (0 :: real)))"
  let ?acc = "fold (splatParticle s) (particles s) ?init"
  have "cleanAcc ?init" using assms by (simp add: cleanAcc_def)
  then have c: "cleanAcc ?acc" by (rule fold_splatParticle_cleanAcc)
  note l = fold_splatParticle_length [of s "particles s" ?init]
  have ru: "inRange (snd (fst ?acc)) i" "inRange (fst (fst ?acc)) i" if "inRange (sim_u s) i"
    using that l assms by (simp_all add: inRange_def)
  have rv: "inRange (snd (snd ?acc)) i" "inRange (fst (snd ?acc)) i" if "inRange (sim_v s) i"
    using that l assms by (simp_all add: inRange_def)
  show "0 \<le> rd (uWeight (splatAndNormalize s)) i" if "inRange (sim_u s) i"
    using c ru [OF that] by (simp add: splatAndNormalize_fields cleanAcc_def)
  show "0 \<le> rd (vWeight (splatAndNormalize s)) i" if "inRange (sim_v s) i"
    using c rv [OF that] by (simp add: splatAndNormalize_fields cleanAcc_def)
  show "rd (sim_u (splatAndNormalize s)) i = 0"
    if "inRange (sim_u s) i" "rd (uWeight (splatAndNormalize s)) i = 0"
  proof -
    have "rd (fst (fst ?acc)) i = 0"
      using c ru [OF that(1)] that(2) by (simp add: splatAndNormalize_fields cleanAcc_def)
    then show ?thesis
      using normalizeGrid_rd [of "uWeight (splatAndNormalize s)" "fst (fst ?acc)"] ru [OF that(1)] that(2)
      by (simp add: splatAndNormalize_fields(3))
  qed
  show "rd (sim_v (splatAndNormalize s)) i = 0"
    if "inRange (sim_v s) i" "rd (vWeight (splatAndNormalize s)) i = 0"
  proof -
    have "rd (fst (snd ?acc)) i = 0"
      using c rv [OF that(1)] that(2) by (simp add: splatAndNormalize_fields cleanAcc_def)
    then show ?thesis
      using normalizeGrid_rd [of "vWeight (splatAndNormalize s)" "fst (snd ?acc)"] rv [OF that(1)] that(2)
      by (simp add: splatAndNormalize_fields(4))
  qed
qed

lemma transferParticlesToGrid_zero_weight:
  assumes "length (uWeight s) = length (sim_u s)" and "length (vWeight s) = length (sim_v s)"
  shows "inRange (sim_u s) i \<Longrightarrow> rd (uWeight (transferParticlesToGrid s)) i = 0 \<Longrightarrow>
           rd (sim_u (transferParticlesToGrid s)) i = 0"
    and "inRange (sim_v s) i \<Longrightarrow> rd (vWeight (transferParticlesToGrid s)) i = 0 \<Longrightarrow>
           rd (sim_v (transferParticlesToGrid s)) i = 0"
proof -
  note z = enforceBoundaries_zero_or_same [of "splatAndNormalize s"]
  show "rd (sim_u (transferParticlesToGrid s)) i = 0"
    if "inRange (sim_u s) i" "rd (uWeight (transferParticlesToGrid s)) i = 0"
  proof -
    have "rd (sim_u (splatAndNormalize s)) i = 0"
      using splatAndNormalize_zero_weight(2) [OF assms that(1)] that(2) by simp
    with z show ?thesis unfolding transferParticlesToGrid_def by metis
  qed
  show "rd (sim_v (transferParticlesToGrid s)) i = 0"
    if "inRange (sim_v s) i" "rd (vWeight (transferParticlesToGrid s)) i = 0"
  proof -
    have "rd (sim_v (splatAndNormalize s)) i = 0"
      using splatAndNormalize_zero_weight(4) [OF assms that(1)] that(2) by simp
    with z show ?thesis unfolding transferParticlesToGrid_def by metis
  qed
qed

text \<open>
  C8. The normalisation loop divides a face value by its weight exactly where the
  weight is greater than 0 and leaves every other face as it is. In the transfer the
  accumulated weights are never negative, and a face whose weight is 0 holds the value 0
  after the normalisation and at the end of \<open>transferParticlesToGrid\<close>.
\<close>

theorem zero_weight_faces_skipped:
  "(\<forall>i. inRange grid i \<longrightarrow>
      rd (normalizeGrid weight grid) i =
        (if rd weight i > 0 then rd grid i / rd weight i else rd grid i)) \<and>
   (length (uWeight s) = length (sim_u s) \<and> length (vWeight s) = length (sim_v s) \<longrightarrow>
      (\<forall>i. inRange (sim_u s) i \<longrightarrow>
         0 \<le> rd (uWeight (transferParticlesToGrid s)) i \<and>
         (rd (uWeight (transferParticlesToGrid s)) i = 0 \<longrightarrow>
            rd (sim_u (splatAndNormalize s)) i = 0 \<and> rd (sim_u (transferParticlesToGrid s)) i = 0)) \<and>
      (\<forall>i. inRange (sim_v s) i \<longrightarrow>
         0 \<le> rd (vWeight (transferParticlesToGrid s)) i \<and>
         (rd (vWeight (transferParticlesToGrid s)) i = 0 \<longrightarrow>
            rd (sim_v (splatAndNormalize s)) i = 0 \<and> rd (sim_v (transferParticlesToGrid s)) i = 0)))"
proof (intro conjI impI allI)
  fix i assume "inRange grid i"
  then show "rd (normalizeGrid weight grid) i =
        (if rd weight i > 0 then rd grid i / rd weight i else rd grid i)"
    using normalizeGrid_rd [of weight grid] by blast
next
  fix i
  assume l: "length (uWeight s) = length (sim_u s) \<and> length (vWeight s) = length (sim_v s)"
    and i: "inRange (sim_u s) i"
  show "0 \<le> rd (uWeight (transferParticlesToGrid s)) i"
    using splatAndNormalize_zero_weight(1) [of s i] l i by simp
  assume z: "rd (uWeight (transferParticlesToGrid s)) i = 0"
  show "rd (sim_u (splatAndNormalize s)) i = 0"
    using splatAndNormalize_zero_weight(2) [of s i] l i z by simp
  show "rd (sim_u (transferParticlesToGrid s)) i = 0"
    using transferParticlesToGrid_zero_weight(1) [of s i] l i z by simp
next
  fix i
  assume l: "length (uWeight s) = length (sim_u s) \<and> length (vWeight s) = length (sim_v s)"
    and i: "inRange (sim_v s) i"
  show "0 \<le> rd (vWeight (transferParticlesToGrid s)) i"
    using splatAndNormalize_zero_weight(3) [of s i] l i by simp
  assume z: "rd (vWeight (transferParticlesToGrid s)) i = 0"
  show "rd (sim_v (splatAndNormalize s)) i = 0"
    using splatAndNormalize_zero_weight(4) [of s i] l i z by simp
  show "rd (sim_v (transferParticlesToGrid s)) i = 0"
    using transferParticlesToGrid_zero_weight(2) [of s i] l i z by simp
qed

lemma exampleSim_fields:
  "fNumX exampleSim = 5" "fNumY exampleSim = 5" "sim_h exampleSim = 10"
  "sim_u exampleSim = replicate 30 0" "sim_v exampleSim = replicate 30 0"
  "uWeight exampleSim = replicate 30 0" "vWeight exampleSim = replicate 30 0"
  "du exampleSim = replicate 30 0" "dv exampleSim = replicate 30 0"
  "pDensity exampleSim = replicate 25 0"
  "particles exampleSim = [Particle 20 28, Particle 20 36.5, Particle 28.5 28, Particle 28.5 36.5]"
  "cellType exampleSim = [2, 2, 2, 2, 2,  2, 1, 1, 1, 2,  2, 1, 1, 1, 2,  2, 1, 1, 1, 2,  2, 2, 2, 2, 2]"
  by (simp_all add: exampleSim_def)

lemma exampleSim_weight0: "rd (uWeight (splatAndNormalize exampleSim)) 0 = 0"
  by (simp add: splatAndNormalize_fields exampleSim_fields splatParticle_def splatToGrid_def
      Let_def splatFace_def Particle_def rd_wr_cases)

theorem zero_weight_faces_skipped_witness:
  "(length (uWeight exampleSim) = length (sim_u exampleSim) \<and>
    length (vWeight exampleSim) = length (sim_v exampleSim)) \<and>
   inRange (sim_u exampleSim) 0 \<and> rd (uWeight (transferParticlesToGrid exampleSim)) 0 = 0 \<and>
   rd (sim_u (transferParticlesToGrid exampleSim)) 0 = 0 \<and>
   inRange [4, 6 :: real] 1 \<and> rd (normalizeGrid [0, 2] [4, 6]) 1 = rd [4, 6] 1 / rd [0, 2] 1 \<and>
   inRange [4, 6 :: real] 0 \<and> rd (normalizeGrid [0, 2] [4, 6]) 0 = rd [4, 6] 0"
proof -
  have l: "length (uWeight exampleSim) = length (sim_u exampleSim) \<and>
    length (vWeight exampleSim) = length (sim_v exampleSim)"
    by (simp add: exampleSim_fields)
  have r: "inRange (sim_u exampleSim) 0" by (simp add: exampleSim_fields)
  have w: "rd (uWeight (transferParticlesToGrid exampleSim)) 0 = 0"
    by (simp add: exampleSim_weight0)
  have n: "inRange [4, 6 :: real] 1" "inRange [4, 6 :: real] 0" "rd [0, 2 :: real] 1 > 0"
    "\<not> rd [0, 2 :: real] 0 > 0"
    by (simp_all add: inRange_def rd_def)
  note t = zero_weight_faces_skipped [of "[4, 6]" "[0, 2]" exampleSim]
  from t l r w have "rd (sim_u (transferParticlesToGrid exampleSim)) 0 = 0" by blast
  moreover from t n have "rd (normalizeGrid [0, 2] [4, 6]) 1 = rd [4, 6] 1 / rd [0, 2] 1"
    by presburger
  moreover from t n have "rd (normalizeGrid [0, 2] [4, 6]) 0 = rd [4, 6] 0"
    by presburger
  ultimately show ?thesis using l r w n by blast
qed

subsection \<open>Boundary enforcement reaches every solid cell\<close>

lemma for_loop_establish:
  assumes pres: "\<And>k x t. I t \<Longrightarrow> R x t \<Longrightarrow> R x (body k t)"
    and est: "\<And>k t. lo \<le> k \<Longrightarrow> k < n \<Longrightarrow> I t \<Longrightarrow> R k (body k t)"
    and inv: "\<And>k t. I t \<Longrightarrow> I (body k t)"
    and "I s" and "lo \<le> x" and "x < n"
  shows "R x (for_loop lo n body s)"
proof -
  define Q where "Q = (\<lambda>k t. I t \<and> (\<forall>x. lo \<le> x \<and> x < k \<longrightarrow> R x t))"
  have "Q (max lo n) (for_loop lo n body s)"
  proof (rule for_loop_inv_idx [where Q = Q], goal_cases)
    case 1
    show ?case using assms(4) by (auto simp: Q_def)
  next
    case (2 k t)
    then have I: "I t" and R: "\<And>x. lo \<le> x \<Longrightarrow> x < k \<Longrightarrow> R x t" by (auto simp: Q_def)
    show ?case unfolding Q_def
    proof (intro conjI allI impI)
      show "I (body k t)" by (rule inv [OF I])
      fix x assume x: "lo \<le> x \<and> x < k + 1"
      show "R x (body k t)"
      proof (cases "x = k")
        case True
        then show ?thesis using est [OF 2(1,2) I] by simp
      next
        case False
        with x have "x < k" by simp
        with x show ?thesis by (intro pres I R) auto
      qed
    qed
  qed
  then show ?thesis using assms(5,6) by (simp add: Q_def)
qed

lemma face_index_range:
  assumes "0 \<le> i" "i < fNumX s" "0 \<le> j" "j < fNumY s" "gridSized s"
  shows "inRange (sim_u s) (getUIndex s i j)" "inRange (sim_u s) (getUIndex s (i + 1) j)"
    "inRange (sim_v s) (getVIndex s i j)" "inRange (sim_v s) (getVIndex s i (j + 1))"
    "inRange (cellType s) (getCellIndex s i j)" "inRange (pDensity s) (getCellIndex s i j)"
proof -
  have lu: "int (length (sim_u s)) = (fNumX s + 1) * fNumY s"
    and lv: "int (length (sim_v s)) = fNumX s * (fNumY s + 1)"
    and lc: "int (length (cellType s)) = fNumX s * fNumY s"
    and lp: "int (length (pDensity s)) = fNumX s * fNumY s"
    using assms by (simp_all add: gridSized_def)
  show "inRange (sim_u s) (getUIndex s i j)"
    using cell_index_range [of i "fNumX s + 1" j "fNumY s"] assms(1-4) lu
    by (simp add: inRange_def getUIndex_def)
  show "inRange (sim_u s) (getUIndex s (i + 1) j)"
    using cell_index_range [of "i + 1" "fNumX s + 1" j "fNumY s"] assms(1-4) lu
    by (simp add: inRange_def getUIndex_def)
  show "inRange (sim_v s) (getVIndex s i j)"
    using cell_index_range [of i "fNumX s" j "fNumY s + 1"] assms(1-4) lv
    by (simp add: inRange_def getVIndex_def)
  show "inRange (sim_v s) (getVIndex s i (j + 1))"
    using cell_index_range [of i "fNumX s" "j + 1" "fNumY s + 1"] assms(1-4) lv
    by (simp add: inRange_def getVIndex_def)
  show "inRange (cellType s) (getCellIndex s i j)"
    using cell_index_range [of i "fNumX s" j "fNumY s"] assms(1-4) lc
    by (simp add: inRange_def getCellIndex_def)
  show "inRange (pDensity s) (getCellIndex s i j)"
    using cell_index_range [of i "fNumX s" j "fNumY s"] assms(1-4) lp
    by (simp add: inRange_def getCellIndex_def)
qed

lemma gridSized_onlyFaces: "onlyFaces s t \<Longrightarrow> gridSized s \<Longrightarrow> gridSized t"
  using onlyFaces_fields [of s t] by (simp add: gridSized_def)

lemma enforceCell_facesZero_keep:
  assumes "facesZero t x y"
  shows "facesZero (enforceCell (fNumX t) j i t) x y"
proof -
  note f = onlyFaces_fields(2) [OF enforceCell_onlyFaces [where s = t and m = "fNumX t" and j = j and i = i]]
  show ?thesis
    using assms enforceCell_zero_or_same [of "fNumX t" j i t]
    unfolding facesZero_def getUIndex_def getVIndex_def f by metis
qed

lemma enforceCell_facesZero_new:
  assumes "0 \<le> i" "i < fNumX t" "0 \<le> j" "j < fNumY t" "gridSized t"
    and "rd (cellType t) (getCellIndex t i j) = SOLID"
  shows "facesZero (enforceCell (fNumX t) j i t) i j"
proof -
  note r = face_index_range [OF assms(1-5)]
  have c: "rd (cellType t) (i + j * fNumX t) = SOLID"
    using assms(6) by (simp add: getCellIndex_def)
  have "enforceCell (fNumX t) j i t =
       t\<lparr>sim_u := wr (wr (sim_u t) (getUIndex t i j) 0) (getUIndex t (i + 1) j) 0,
         sim_v := wr (wr (sim_v t) (getVIndex t i j) 0) (getVIndex t i (j + 1)) 0\<rparr>"
    by (simp add: enforceCell_def c Let_def getUIndex_def getVIndex_def add.commute)
  then show ?thesis using r
    by (simp add: facesZero_def rd_wr_cases getUIndex_def getVIndex_def)
qed


lemma enforceRow_facesZero:
  assumes g: "gridSized s" and j: "0 \<le> j" "j < fNumY s" and t: "onlyFaces s t"
  shows "onlyFaces s (for_loop 0 (fNumX s) (enforceCell (fNumX s) j) t)"
    and "facesZero t x y \<Longrightarrow> facesZero (for_loop 0 (fNumX s) (enforceCell (fNumX s) j) t) x y"
    and "0 \<le> i \<Longrightarrow> i < fNumX s \<Longrightarrow> rd (cellType s) (getCellIndex s i j) = SOLID \<Longrightarrow>
           facesZero (for_loop 0 (fNumX s) (enforceCell (fNumX s) j) t) i j"
proof -
  have step: "onlyFaces s (enforceCell (fNumX s) j k r)" if "onlyFaces s r" for k r
    using that enforceCell_onlyFaces by (rule onlyFaces_trans)
  show "onlyFaces s (for_loop 0 (fNumX s) (enforceCell (fNumX s) j) t)"
    by (rule for_loop_inv [where P = "onlyFaces s", OF t]) (rule step)
  have keep: "facesZero (enforceCell (fNumX s) j k r) x y" if "onlyFaces s r" "facesZero r x y" for k r x y
    using enforceCell_facesZero_keep [OF that(2), of j k] onlyFaces_fields(2) [OF that(1)] by simp
  show "facesZero (for_loop 0 (fNumX s) (enforceCell (fNumX s) j) t) x y" if "facesZero t x y"
    using for_loop_inv [where P = "\<lambda>r. onlyFaces s r \<and> facesZero r x y" and s = t
        and lo = 0 and n = "fNumX s" and body = "enforceCell (fNumX s) j"]
      t that step keep by blast
  show "facesZero (for_loop 0 (fNumX s) (enforceCell (fNumX s) j) t) i j"
    if i: "0 \<le> i" "i < fNumX s" and c: "rd (cellType s) (getCellIndex s i j) = SOLID"
  proof (rule for_loop_establish [where I = "onlyFaces s"
        and R = "\<lambda>k r. rd (cellType s) (getCellIndex s k j) = SOLID \<longrightarrow> facesZero r k j",
        THEN mp, OF _ _ _ t i c], goal_cases)
    case (1 k x r)
    then show ?case using keep by blast
  next
    case (2 k r)
    note f = onlyFaces_fields [OF 2(3)]
    show ?case
    proof
      assume "rd (cellType s) (getCellIndex s k j) = SOLID"
      then have "rd (cellType r) (getCellIndex r k j) = SOLID"
        by (simp add: f getCellIndex_def)
      from enforceCell_facesZero_new [OF _ _ _ _ gridSized_onlyFaces [OF 2(3) g] this]
      show "facesZero (enforceCell (fNumX s) j k r) k j"
        using 2(1,2) j by (simp add: f)
    qed
  next
    case (3 k r)
    then show ?case by (rule step)
  qed
qed

lemma enforceBoundaries_facesZero:
  assumes g: "gridSized s" and i: "0 \<le> i" "i < fNumX s" and j: "0 \<le> j" "j < fNumY s"
    and c: "rd (cellType s) (getCellIndex s i j) = SOLID"
  shows "facesZero (enforceBoundaries s) i j"
proof -
  have "(\<forall>i. 0 \<le> i \<and> i < fNumX s \<and> rd (cellType s) (getCellIndex s i j) = SOLID \<longrightarrow>
           facesZero (for_loop 0 (fNumY s) (\<lambda>j. for_loop 0 (fNumX s) (enforceCell (fNumX s) j)) s) i j)"
  proof (rule for_loop_establish [where I = "onlyFaces s"
        and R = "\<lambda>k r. \<forall>i. 0 \<le> i \<and> i < fNumX s \<and> rd (cellType s) (getCellIndex s i k) = SOLID \<longrightarrow>
                   facesZero r i k", OF _ _ _ _ j], goal_cases)
    case (1 k x r)
    show ?case
    proof (intro allI impI)
      fix i assume "0 \<le> i \<and> i < fNumX s \<and> rd (cellType s) (getCellIndex s i x) = SOLID"
      with 1(2) have z: "facesZero r i x" by blast
      note f = onlyFaces_fields [OF 1(1)]
      have step: "onlyFaces s (enforceCell (fNumX s) k c q)" if "onlyFaces s q" for c q
        using that enforceCell_onlyFaces by (rule onlyFaces_trans)
      have keep: "facesZero (enforceCell (fNumX s) k c q) i x" if "onlyFaces s q" "facesZero q i x" for c q
        using enforceCell_facesZero_keep [OF that(2), of k c] onlyFaces_fields(2) [OF that(1)] by simp
      show "facesZero (for_loop 0 (fNumX s) (enforceCell (fNumX s) k) r) i x"
        using for_loop_inv [where P = "\<lambda>q. onlyFaces s q \<and> facesZero q i x" and s = r
            and lo = 0 and n = "fNumX s" and body = "enforceCell (fNumX s) k"]
          1(1) z step keep by blast
    qed
  next
    case (2 k r)
    show ?case using enforceRow_facesZero(3) [OF g 2(1,2,3)] by blast
  next
    case (3 k r)
    have step: "onlyFaces s (enforceCell (fNumX s) k c q)" if "onlyFaces s q" for c q
      using that enforceCell_onlyFaces by (rule onlyFaces_trans)
    show ?case by (rule for_loop_inv [where P = "onlyFaces s", OF 3]) (rule step)
  next
    case 4
    show ?case by simp
  qed
  then show ?thesis using i c by (simp add: enforceBoundaries_def Let_def)
qed

lemma gridSized_splatAndNormalize: "gridSized s \<Longrightarrow> gridSized (splatAndNormalize s)"
  using fold_splatParticle_length [of s "particles s"
      "((replicate (length (sim_u s)) 0, replicate (length (uWeight s)) 0),
        (replicate (length (sim_v s)) 0, replicate (length (vWeight s)) 0))"]
    normalizeGrid_rd
  by (simp add: gridSized_def splatAndNormalize_fields)

lemma gridSized_exampleSim: "gridSized exampleSim"
  by (simp add: gridSized_def exampleSim_fields)

text \<open>
  C2. When \<open>transferParticlesToGrid\<close> returns, the four faces of every solid cell of the
  grid hold 0: the two \<open>u\<close> faces at \<open>(i, j)\<close> and \<open>(i + 1, j)\<close> and the two \<open>v\<close> faces at
  \<open>(i, j)\<close> and \<open>(i, j + 1)\<close>.
\<close>

theorem solid_faces_zero_after_transfer:
  assumes "gridSized s"
    and "0 \<le> i" "i < fNumX s" "0 \<le> j" "j < fNumY s"
    and "rd (cellType s) (getCellIndex s i j) = SOLID"
  shows "rd (sim_u (transferParticlesToGrid s)) (getUIndex s i j) = 0 \<and>
         rd (sim_u (transferParticlesToGrid s)) (getUIndex s (i + 1) j) = 0 \<and>
         rd (sim_v (transferParticlesToGrid s)) (getVIndex s i j) = 0 \<and>
         rd (sim_v (transferParticlesToGrid s)) (getVIndex s i (j + 1)) = 0"
proof -
  let ?t = "splatAndNormalize s"
  have g: "gridSized ?t" by (rule gridSized_splatAndNormalize [OF assms(1)])
  have c: "rd (cellType ?t) (getCellIndex ?t i j) = SOLID"
    using assms(6) by (simp add: splatAndNormalize_fields getCellIndex_def)
  have "facesZero (enforceBoundaries ?t) i j"
    by (rule enforceBoundaries_facesZero [OF g _ _ _ _ c])
       (use assms in \<open>simp_all add: splatAndNormalize_fields\<close>)
  moreover have "fNumX (enforceBoundaries ?t) = fNumX s"
    using onlyFaces_fields(2) [OF enforceBoundaries_onlyFaces, of ?t]
    by (simp add: splatAndNormalize_fields)
  ultimately show ?thesis
    by (simp add: facesZero_def transferParticlesToGrid_def getUIndex_def getVIndex_def)
qed

theorem solid_faces_zero_after_transfer_witness:
  "gridSized exampleSim \<and> (0 :: int) \<le> 4 \<and> 4 < fNumX exampleSim \<and> (0 :: int) \<le> 2 \<and> 2 < fNumY exampleSim \<and>
   rd (cellType exampleSim) (getCellIndex exampleSim 4 2) = SOLID \<and>
   rd (sim_u (transferParticlesToGrid exampleSim)) 16 = 0 \<and>
   rd (sim_u (transferParticlesToGrid exampleSim)) 17 = 0 \<and>
   rd (sim_v (transferParticlesToGrid exampleSim)) 14 = 0 \<and>
   rd (sim_v (transferParticlesToGrid exampleSim)) 19 = 0"
proof -
  have h: "(0 :: int) \<le> 4" "4 < fNumX exampleSim" "(0 :: int) \<le> 2" "2 < fNumY exampleSim"
    by (simp_all add: exampleSim_fields)
  have c: "rd (cellType exampleSim) (getCellIndex exampleSim 4 2) = SOLID"
    by (simp add: getCellIndex_def exampleSim_fields rd_def inRange_def SOLID_def)
  from solid_faces_zero_after_transfer [OF gridSized_exampleSim h c]
  show ?thesis using gridSized_exampleSim h c
    by (simp add: getUIndex_def getVIndex_def exampleSim_fields)
qed

subsection \<open>The pressure solve writes only faces between two non-solid cells\<close>

lemma index_inj:
  fixes x y i j M :: int
  assumes "x + y * M = i + j * M" "0 \<le> x" "x < M" "0 \<le> i" "i < M"
  shows "x = i \<and> y = j"
proof -
  have a: "(x + y * M) mod M = x" using assms(2,3) by simp
  have b: "(i + j * M) mod M = i" using assms(4,5) by simp
  have x: "x = i" using a b assms(1) by metis
  with assms have "y * M = j * M" by simp
  moreover have "M \<noteq> 0" using assms by auto
  ultimately show ?thesis using x by simp
qed

lemma solveCell_u_writes:
  assumes "rd (sim_u (solveCell j i s)) k \<noteq> rd (sim_u s) k"
  shows "rd (cellType s) (i + j * fNumX s) \<noteq> SOLID \<and>
         ((k = i + j * (fNumX s + 1) \<and> rd (cellType s) (i - 1 + j * fNumX s) \<noteq> SOLID) \<or>
          (k = i + j * (fNumX s + 1) + 1 \<and> rd (cellType s) (i + 1 + j * fNumX s) \<noteq> SOLID))"
  using assms
  by (simp add: solveCell_def Let_def rd_wr_cases split: if_splits)

lemma solveCell_v_writes:
  assumes "rd (sim_v (solveCell j i s)) k \<noteq> rd (sim_v s) k"
  shows "rd (cellType s) (i + j * fNumX s) \<noteq> SOLID \<and>
         ((k = i + j * fNumX s \<and> rd (cellType s) (i + (j - 1) * fNumX s) \<noteq> SOLID) \<or>
          (k = i + j * fNumX s + fNumX s \<and> rd (cellType s) (i + (j + 1) * fNumX s) \<noteq> SOLID))"
  using assms
  by (simp add: solveCell_def Let_def rd_wr_cases split: if_splits)

lemma solveCell_u_frame:
  assumes "0 \<le> i" "i + 1 \<le> fNumX s" "0 \<le> x" "x \<le> fNumX s"
    and "(0 < x \<and> rd (cellType s) (getCellIndex s (x - 1) y) = SOLID) \<or>
         (x < fNumX s \<and> rd (cellType s) (getCellIndex s x y) = SOLID)"
  shows "rd (sim_u (solveCell j i s)) (getUIndex s x y) = rd (sim_u s) (getUIndex s x y)"
proof (rule ccontr)
  assume "rd (sim_u (solveCell j i s)) (getUIndex s x y) \<noteq> rd (sim_u s) (getUIndex s x y)"
  from solveCell_u_writes [OF this]
  have c: "rd (cellType s) (i + j * fNumX s) \<noteq> SOLID"
    and d: "(x + y * (fNumX s + 1) = i + j * (fNumX s + 1) \<and>
              rd (cellType s) (i - 1 + j * fNumX s) \<noteq> SOLID) \<or>
            (x + y * (fNumX s + 1) = (i + 1) + j * (fNumX s + 1) \<and>
              rd (cellType s) (i + 1 + j * fNumX s) \<noteq> SOLID)"
    by (auto simp: getUIndex_def)
  from d show False
  proof
    assume a: "x + y * (fNumX s + 1) = i + j * (fNumX s + 1) \<and>
              rd (cellType s) (i - 1 + j * fNumX s) \<noteq> SOLID"
    then have "x = i \<and> y = j"
      using index_inj [of x y "fNumX s + 1" i j] assms(1-4) by simp
    with a c assms(5) show False by (auto simp: getCellIndex_def)
  next
    assume a: "x + y * (fNumX s + 1) = (i + 1) + j * (fNumX s + 1) \<and>
              rd (cellType s) (i + 1 + j * fNumX s) \<noteq> SOLID"
    then have "x = i + 1 \<and> y = j"
      using index_inj [of x y "fNumX s + 1" "i + 1" j] assms(1-4) by simp
    with a c assms(5) show False by (auto simp: getCellIndex_def)
  qed
qed

lemma solveCell_v_frame:
  assumes "0 \<le> i" "i < fNumX s" "0 \<le> x" "x < fNumX s"
    and "rd (cellType s) (getCellIndex s x (y - 1)) = SOLID \<or>
         rd (cellType s) (getCellIndex s x y) = SOLID"
  shows "rd (sim_v (solveCell j i s)) (getVIndex s x y) = rd (sim_v s) (getVIndex s x y)"
proof (rule ccontr)
  assume "rd (sim_v (solveCell j i s)) (getVIndex s x y) \<noteq> rd (sim_v s) (getVIndex s x y)"
  from solveCell_v_writes [OF this]
  have c: "rd (cellType s) (i + j * fNumX s) \<noteq> SOLID"
    and d: "(x + y * fNumX s = i + j * fNumX s \<and>
              rd (cellType s) (i + (j - 1) * fNumX s) \<noteq> SOLID) \<or>
            (x + y * fNumX s = i + (j + 1) * fNumX s \<and>
              rd (cellType s) (i + (j + 1) * fNumX s) \<noteq> SOLID)"
    by (auto simp: getVIndex_def algebra_simps)
  from d show False
  proof
    assume a: "x + y * fNumX s = i + j * fNumX s \<and>
              rd (cellType s) (i + (j - 1) * fNumX s) \<noteq> SOLID"
    then have "x = i \<and> y = j"
      using index_inj [of x y "fNumX s" i j] assms(1-4) by simp
    with a c assms(5) show False by (auto simp: getCellIndex_def)
  next
    assume a: "x + y * fNumX s = i + (j + 1) * fNumX s \<and>
              rd (cellType s) (i + (j + 1) * fNumX s) \<noteq> SOLID"
    then have "x = i \<and> y = j + 1"
      using index_inj [of x y "fNumX s" i "j + 1"] assms(1-4) by simp
    with a c assms(5) show False by (auto simp: getCellIndex_def)
  qed
qed

lemma solveSweep_frame:
  assumes "\<And>j i t. 1 \<le> i \<Longrightarrow> i < fNumX s - 1 \<Longrightarrow> onlyFaces s t \<Longrightarrow> F (solveCell j i t) = F t"
  shows "onlyFaces s t \<Longrightarrow> F (solveSweep t) = F t"
proof -
  assume t: "onlyFaces s t"
  let ?P = "\<lambda>r. onlyFaces s r \<and> F r = F t"
  have cell: "?P (solveCell j i r)" if "1 \<le> i" "i < fNumX s - 1" "?P r" for j i r
    using that assms [of i r j] onlyFaces_trans [OF _ solveCell_onlyFaces, of s r j i] by simp
  have row: "?P (for_loop 1 (fNumX r - 1) (solveCell j) r)" if "?P r" for j r
  proof -
    have "fNumX r = fNumX s" using that onlyFaces_fields(2) by blast
    then show ?thesis
      using for_loop_inv [where P = ?P and s = r and lo = 1 and n = "fNumX s - 1" and body = "solveCell j"]
        that cell by auto
  qed
  have "?P (solveSweep t)"
    unfolding solveSweep_def
    by (rule for_loop_inv [where P = ?P]) (use t row in auto)
  then show ?thesis by simp
qed

lemma solveIncompressibility_frame:
  assumes "\<And>j i t. 1 \<le> i \<Longrightarrow> i < fNumX s - 1 \<Longrightarrow> onlyFaces s t \<Longrightarrow> F (solveCell j i t) = F t"
  shows "F (solveIncompressibility s) = F s"
proof -
  let ?P = "\<lambda>r. onlyFaces s r \<and> F r = F s"
  have "?P (solveIncompressibility s)"
    unfolding solveIncompressibility_def Let_def
  proof (rule for_loop_inv [where P = ?P], goal_cases)
    case 1
    show ?case by simp
  next
    case (2 k t)
    then show ?case
      using solveSweep_frame [where s = s and F = F and t = t, OF assms]
        onlyFaces_trans [OF _ solveSweep_onlyFaces, of s t] by simp
  qed
  then show ?thesis by simp
qed

lemma solve_u_frame:
  assumes "0 \<le> x" "x \<le> fNumX s"
    and "(0 < x \<and> rd (cellType s) (getCellIndex s (x - 1) y) = SOLID) \<or>
         (x < fNumX s \<and> rd (cellType s) (getCellIndex s x y) = SOLID)"
  shows "rd (sim_u (solveIncompressibility s)) (getUIndex s x y) = rd (sim_u s) (getUIndex s x y)"
proof (rule solveIncompressibility_frame [where F = "\<lambda>t. rd (sim_u t) (getUIndex s x y)"], goal_cases)
  case (1 j i t)
  note f = onlyFaces_fields [OF 1(3)]
  have "rd (sim_u (solveCell j i t)) (getUIndex t x y) = rd (sim_u t) (getUIndex t x y)"
    by (rule solveCell_u_frame) (use 1 assms in \<open>simp_all add: f getCellIndex_def\<close>)
  then show ?case by (simp add: getUIndex_def f)
qed

lemma solve_v_frame:
  assumes "0 \<le> x" "x < fNumX s"
    and "rd (cellType s) (getCellIndex s x (y - 1)) = SOLID \<or>
         rd (cellType s) (getCellIndex s x y) = SOLID"
  shows "rd (sim_v (solveIncompressibility s)) (getVIndex s x y) = rd (sim_v s) (getVIndex s x y)"
proof (rule solveIncompressibility_frame [where F = "\<lambda>t. rd (sim_v t) (getVIndex s x y)"], goal_cases)
  case (1 j i t)
  note f = onlyFaces_fields [OF 1(3)]
  have "rd (sim_v (solveCell j i t)) (getVIndex t x y) = rd (sim_v t) (getVIndex t x y)"
    by (rule solveCell_v_frame) (use 1 assms in \<open>simp_all add: f getCellIndex_def\<close>)
  then show ?case by (simp add: getVIndex_def f)
qed

text \<open>
  C10. \<open>solveIncompressibility\<close> leaves every face that touches a solid cell as it finds
  it: a \<open>u\<close> face \<open>(x, y)\<close> whose left cell \<open>(x - 1, y)\<close> or right cell \<open>(x, y)\<close> is solid, and a
  \<open>v\<close> face \<open>(x, y)\<close> whose cell below \<open>(x, y - 1)\<close> or above \<open>(x, y)\<close> is solid. In
  particular the face \<open>1 + j * (fNumX + 1)\<close> that the wave paddle writes in row \<open>j\<close> keeps
  its value when the wall cell \<open>(0, j)\<close> is solid.
\<close>

theorem solve_keeps_faces_of_solid_cells:
  "(\<forall>x y. 0 \<le> x \<and> x \<le> fNumX s \<and>
       ((0 < x \<and> rd (cellType s) (getCellIndex s (x - 1) y) = SOLID) \<or>
        (x < fNumX s \<and> rd (cellType s) (getCellIndex s x y) = SOLID)) \<longrightarrow>
       rd (sim_u (solveIncompressibility s)) (getUIndex s x y) = rd (sim_u s) (getUIndex s x y)) \<and>
   (\<forall>x y. 0 \<le> x \<and> x < fNumX s \<and>
       ((0 < y \<and> rd (cellType s) (getCellIndex s x (y - 1)) = SOLID) \<or>
        (y < fNumY s \<and> rd (cellType s) (getCellIndex s x y) = SOLID)) \<longrightarrow>
       rd (sim_v (solveIncompressibility s)) (getVIndex s x y) = rd (sim_v s) (getVIndex s x y)) \<and>
   (\<forall>j. 1 \<le> fNumX s \<and> rd (cellType s) (getCellIndex s 0 j) = SOLID \<longrightarrow>
       rd (sim_u (solveIncompressibility s)) (1 + j * (fNumX s + 1)) =
       rd (sim_u s) (1 + j * (fNumX s + 1)))"
proof (intro conjI allI impI)
  fix x y
  assume "0 \<le> x \<and> x \<le> fNumX s \<and>
       ((0 < x \<and> rd (cellType s) (getCellIndex s (x - 1) y) = SOLID) \<or>
        (x < fNumX s \<and> rd (cellType s) (getCellIndex s x y) = SOLID))"
  then show "rd (sim_u (solveIncompressibility s)) (getUIndex s x y) = rd (sim_u s) (getUIndex s x y)"
    using solve_u_frame [of x s y] by blast
next
  fix x y
  assume "0 \<le> x \<and> x < fNumX s \<and>
       ((0 < y \<and> rd (cellType s) (getCellIndex s x (y - 1)) = SOLID) \<or>
        (y < fNumY s \<and> rd (cellType s) (getCellIndex s x y) = SOLID))"
  then show "rd (sim_v (solveIncompressibility s)) (getVIndex s x y) = rd (sim_v s) (getVIndex s x y)"
    using solve_v_frame [of x s y] by blast
next
  fix j
  assume "1 \<le> fNumX s \<and> rd (cellType s) (getCellIndex s 0 j) = SOLID"
  then show "rd (sim_u (solveIncompressibility s)) (1 + j * (fNumX s + 1)) =
       rd (sim_u s) (1 + j * (fNumX s + 1))"
    using solve_u_frame [of 1 s j] by (simp add: getUIndex_def)
qed

lemma exampleSim_paddle:
  "rd (sim_u (wavePaddle (exampleSim\<lparr>totalTime := 1\<rparr>))) 13 = 400 * sin 1"
  "fNumX (wavePaddle (exampleSim\<lparr>totalTime := 1\<rparr>)) = 5"
  "cellType (wavePaddle (exampleSim\<lparr>totalTime := 1\<rparr>)) = cellType exampleSim"
proof -
  have c: "\<lceil>5 * 0.7 :: real\<rceil> = 4" by (simp add: ceiling_eq_iff)
  show "rd (sim_u (wavePaddle (exampleSim\<lparr>totalTime := 1\<rparr>))) 13 = 400 * sin 1"
    by (simp add: wavePaddle_def Let_def exampleSim_fields c for_loop_unfold for_loop_done
        rd_wr_cases)
  show "fNumX (wavePaddle (exampleSim\<lparr>totalTime := 1\<rparr>)) = 5"
    "cellType (wavePaddle (exampleSim\<lparr>totalTime := 1\<rparr>)) = cellType exampleSim"
    using onlyFaces_fields(2,5) [OF wavePaddle_onlyFaces, of "exampleSim\<lparr>totalTime := 1\<rparr>"]
    by (simp_all add: exampleSim_fields)
qed

theorem solve_keeps_faces_of_solid_cells_witness:
  "1 \<le> fNumX (wavePaddle (exampleSim\<lparr>totalTime := 1\<rparr>)) \<and>
   rd (cellType (wavePaddle (exampleSim\<lparr>totalTime := 1\<rparr>)))
      (getCellIndex (wavePaddle (exampleSim\<lparr>totalTime := 1\<rparr>)) 0 2) = SOLID \<and>
   rd (sim_u (solveIncompressibility (wavePaddle (exampleSim\<lparr>totalTime := 1\<rparr>)))) 13 = 400 * sin 1"
proof -
  let ?s = "wavePaddle (exampleSim\<lparr>totalTime := 1\<rparr>)"
  have h: "1 \<le> fNumX ?s" by (simp add: exampleSim_paddle)
  have c: "rd (cellType ?s) (getCellIndex ?s 0 2) = SOLID"
    by (simp add: exampleSim_paddle getCellIndex_def exampleSim_fields rd_def inRange_def SOLID_def)
  from solve_keeps_faces_of_solid_cells [of ?s] h c
  have "rd (sim_u (solveIncompressibility ?s)) (1 + 2 * (fNumX ?s + 1)) =
       rd (sim_u ?s) (1 + 2 * (fNumX ?s + 1))" by blast
  then show ?thesis using h c by (simp add: exampleSim_paddle)
qed

subsection \<open>The relaxation update\<close>

lemma wr_rd_same: "wr a k (rd a k) = a"
  by (simp add: wr_def rd_def)
lemma gated_u:
  "(if g then t\<lparr>sim_u := wr (sim_u t) k x\<rparr> else t) =
     t\<lparr>sim_u := wr (sim_u t) k (if g then x else rd (sim_u t) k)\<rparr>"
  by (cases g) (simp_all add: wr_rd_same)

lemma gated_v:
  "(if g then t\<lparr>sim_v := wr (sim_v t) k x\<rparr> else t) =
     t\<lparr>sim_v := wr (sim_v t) k (if g then x else rd (sim_v t) k)\<rparr>"
  by (cases g) (simp_all add: wr_rd_same)

lemma four_gated_writes:
  assumes "a' \<noteq> a" "b' \<noteq> b"
  shows
  "(let s1 = (if L then s\<lparr>sim_u := wr (sim_u s) a (rd (sim_u s) a - f)\<rparr> else s);
        s2 = (if R then s1\<lparr>sim_u := wr (sim_u s1) a' (rd (sim_u s1) a' + f)\<rparr> else s1);
        s3 = (if B then s2\<lparr>sim_v := wr (sim_v s2) b (rd (sim_v s2) b - f)\<rparr> else s2)
    in if T then s3\<lparr>sim_v := wr (sim_v s3) b' (rd (sim_v s3) b' + f)\<rparr> else s3) =
   s\<lparr>sim_u := wr (wr (sim_u s) a (if L then rd (sim_u s) a - f else rd (sim_u s) a)) a'
                 (if R then rd (sim_u s) a' + f else rd (sim_u s) a'),
     sim_v := wr (wr (sim_v s) b (if B then rd (sim_v s) b - f else rd (sim_v s) b)) b'
                 (if T then rd (sim_v s) b' + f else rd (sim_v s) b')\<rparr>"
proof -
  define X where "X = (if L then rd (sim_u s) a - f else rd (sim_u s) a)"
  define Y where "Y = (if R then rd (sim_u s) a' + f else rd (sim_u s) a')"
  define Z where "Z = (if B then rd (sim_v s) b - f else rd (sim_v s) b)"
  define W where "W = (if T then rd (sim_v s) b' + f else rd (sim_v s) b')"
  define s1 where "s1 = (if L then s\<lparr>sim_u := wr (sim_u s) a (rd (sim_u s) a - f)\<rparr> else s)"
  define s2 where "s2 = (if R then s1\<lparr>sim_u := wr (sim_u s1) a' (rd (sim_u s1) a' + f)\<rparr> else s1)"
  define s3 where "s3 = (if B then s2\<lparr>sim_v := wr (sim_v s2) b (rd (sim_v s2) b - f)\<rparr> else s2)"
  define s4 where "s4 = (if T then s3\<lparr>sim_v := wr (sim_v s3) b' (rd (sim_v s3) b' + f)\<rparr> else s3)"
  have 1: "s1 = s\<lparr>sim_u := wr (sim_u s) a X\<rparr>"
    unfolding s1_def X_def by (rule gated_u)
  have "s2 = s1\<lparr>sim_u := wr (sim_u s1) a' (if R then rd (sim_u s1) a' + f else rd (sim_u s1) a')\<rparr>"
    unfolding s2_def by (rule gated_u)
  moreover have "rd (sim_u s1) a' = rd (sim_u s) a'" using assms(1) by (simp add: 1 rd_wr_other)
  ultimately have 2: "s2 = s\<lparr>sim_u := wr (wr (sim_u s) a X) a' Y\<rparr>"
    by (simp add: 1 Y_def)
  have "s3 = s2\<lparr>sim_v := wr (sim_v s2) b (if B then rd (sim_v s2) b - f else rd (sim_v s2) b)\<rparr>"
    unfolding s3_def by (rule gated_v)
  then have 3: "s3 = s\<lparr>sim_u := wr (wr (sim_u s) a X) a' Y, sim_v := wr (sim_v s) b Z\<rparr>"
    by (simp add: 2 Z_def)
  have "s4 = s3\<lparr>sim_v := wr (sim_v s3) b' (if T then rd (sim_v s3) b' + f else rd (sim_v s3) b')\<rparr>"
    unfolding s4_def by (rule gated_v)
  moreover have "rd (sim_v s3) b' = rd (sim_v s) b'" using assms(2) by (simp add: 3 rd_wr_other)
  ultimately have 4: "s4 = s\<lparr>sim_u := wr (wr (sim_u s) a X) a' Y, sim_v := wr (wr (sim_v s) b Z) b' W\<rparr>"
    by (simp add: 3 W_def)
  show ?thesis
    unfolding Let_def
    using 4 unfolding s4_def s3_def s2_def s1_def X_def Y_def Z_def W_def .
qed

lemma gate_int: "((if c then (0 :: int) else 1) \<noteq> 0) = (\<not> c)"
  by simp

lemma gate_count:
  "(if a then (0 :: int) else 1) + (if b then 0 else 1) + (if c then 0 else 1) + (if d then 0 else 1)
     = int (length (filter id [\<not> a, \<not> b, \<not> c, \<not> d]))"
  by simp

lemma density_correction: "(if d > r then 1.0 * (d - r) else 0) = max 0 (d - r) * (1 :: real)"
  by (simp add: max_def)

lemma solveCell_relaxCell_spec:
  assumes "fNumX s \<noteq> 0" and "rd (cellType s) (getCellIndex s i j) \<noteq> SOLID"
  shows "solveCell j i s = relaxCell_spec j i s"
proof -
  define a where "a = i + j * (fNumX s + 1)"
  define b where "b = i + j * fNumX s"
  define L where "L = (if rd (cellType s) (i - 1 + j * fNumX s) = SOLID then 0 else 1 :: int)"
  define R where "R = (if rd (cellType s) (i + 1 + j * fNumX s) = SOLID then 0 else 1 :: int)"
  define B where "B = (if rd (cellType s) (i + (j - 1) * fNumX s) = SOLID then 0 else 1 :: int)"
  define T where "T = (if rd (cellType s) (i + (j + 1) * fNumX s) = SOLID then 0 else 1 :: int)"
  define D where "D = rd (sim_u s) (a + 1) - rd (sim_u s) a + (rd (sim_v s) (b + fNumX s) - rd (sim_v s) b)
       - (if rd (pDensity s) b > 2.5 then 1.0 * (rd (pDensity s) b - 2.5) else 0)"
  define f where "f = - (D * overRelaxation s) / of_int (L + R + B + T)"
  have n: "a + 1 \<noteq> a" "b + fNumX s \<noteq> b" using assms(1) by simp_all
  note fw = four_gated_writes [OF n, of "L \<noteq> 0" s f "R \<noteq> 0" "B \<noteq> 0" "T \<noteq> 0", unfolded Let_def]
  have c: "rd (cellType s) b \<noteq> SOLID" using assms(2) by (simp add: getCellIndex_def b_def)
  have src: "solveCell j i s =
     (if \<bar>D\<bar> < 0.00001 then s else if L + R + B + T = 0 then s
      else s\<lparr>sim_u := wr (wr (sim_u s) a (if L \<noteq> 0 then rd (sim_u s) a - f else rd (sim_u s) a)) (a + 1)
                 (if R \<noteq> 0 then rd (sim_u s) (a + 1) + f else rd (sim_u s) (a + 1)),
             sim_v := wr (wr (sim_v s) b (if B \<noteq> 0 then rd (sim_v s) b - f else rd (sim_v s) b)) (b + fNumX s)
                 (if T \<noteq> 0 then rd (sim_v s) (b + fNumX s) + f else rd (sim_v s) (b + fNumX s))\<rparr>)"
    unfolding solveCell_def Let_def a_def [symmetric] b_def [symmetric] L_def [symmetric]
      R_def [symmetric] B_def [symmetric] T_def [symmetric] D_def [symmetric] f_def [symmetric] fw
    using c by (simp only: if_False)
  have e: "getUIndex s i j = a" "getUIndex s (i + 1) j = a + 1" "getVIndex s i j = b"
    "getVIndex s i (j + 1) = b + fNumX s" "getCellIndex s i j = b"
    "getCellIndex s (i - 1) j = i - 1 + j * fNumX s" "getCellIndex s (i + 1) j = i + 1 + j * fNumX s"
    "getCellIndex s i (j - 1) = i + (j - 1) * fNumX s" "getCellIndex s i (j + 1) = i + (j + 1) * fNumX s"
    by (simp_all add: getUIndex_def getVIndex_def getCellIndex_def a_def b_def algebra_simps)
  have g: "(rd (cellType s) (i - 1 + j * fNumX s) \<noteq> SOLID) = (L \<noteq> 0)"
    "(rd (cellType s) (i + 1 + j * fNumX s) \<noteq> SOLID) = (R \<noteq> 0)"
    "(rd (cellType s) (i + (j - 1) * fNumX s) \<noteq> SOLID) = (B \<noteq> 0)"
    "(rd (cellType s) (i + (j + 1) * fNumX s) \<noteq> SOLID) = (T \<noteq> 0)"
    by (simp_all add: L_def R_def B_def T_def)
  have cnt: "int (length (filter id [L \<noteq> 0, R \<noteq> 0, B \<noteq> 0, T \<noteq> 0])) = L + R + B + T"
    by (simp add: L_def R_def B_def T_def)
  have D': "rd (sim_u s) (a + 1) - rd (sim_u s) a + (rd (sim_v s) (b + fNumX s) - rd (sim_v s) b)
       - max 0 (rd (pDensity s) b - 2.5) * 1 = D"
    unfolding D_def density_correction ..
  have spec: "relaxCell_spec j i s =
     (if \<bar>D\<bar> < 0.00001 \<or> L + R + B + T = 0 then s
      else s\<lparr>sim_u := wr (wr (sim_u s) a (if L \<noteq> 0 then rd (sim_u s) a - f else rd (sim_u s) a)) (a + 1)
                 (if R \<noteq> 0 then rd (sim_u s) (a + 1) + f else rd (sim_u s) (a + 1)),
             sim_v := wr (wr (sim_v s) b (if B \<noteq> 0 then rd (sim_v s) b - f else rd (sim_v s) b)) (b + fNumX s)
                 (if T \<noteq> 0 then rd (sim_v s) (b + fNumX s) + f else rd (sim_v s) (b + fNumX s))\<rparr>)"
    unfolding relaxCell_spec_def Let_def e g cnt D' f_def [symmetric] ..
  show ?thesis unfolding src spec
    by (cases "\<bar>D\<bar> < 0.00001"; cases "L + R + B + T = 0") (simp_all only: if_True if_False simp_thms)
qed

lemma for_loop_fold: "for_loop lo n body s = fold body [lo..n - 1] s"
proof (induction lo n body s rule: for_loop.induct)
  case (1 i n body s)
  show ?case
  proof (cases "i < n")
    case True
    then have "[i..n - 1] = i # [i + 1..n - 1]" by (simp add: upto_rec1)
    then show ?thesis using "1.IH" [OF True] by (simp add: for_loop_unfold True)
  next
    case False
    then show ?thesis by (simp add: for_loop_done)
  qed
qed

lemma fold_product:
  "fold (\<lambda>(x, y). f x y) (List.product xs ys) s = fold (\<lambda>x. fold (f x) ys) xs s"
proof (induction xs arbitrary: s)
  case Nil
  show ?case by simp
next
  case (Cons x xs)
  have "fold (\<lambda>(x, y). f x y) (map (Pair x) ys) s = fold (f x) ys s"
    by (simp add: fold_map comp_def)
  then show ?case using Cons by simp
qed

lemma fold_const_funpow: "fold (\<lambda>k. f) xs s = (f ^^ length xs) s"
  by (induction xs arbitrary: s) (simp_all add: funpow_swap1)

lemma for_loop_cong_inv:
  assumes "I s"
    and "\<And>k t. lo \<le> k \<Longrightarrow> k < n \<Longrightarrow> I t \<Longrightarrow> body k t = body' k t \<and> I (body k t)"
  shows "for_loop lo n body s = for_loop lo n body' s"
  using assms
proof (induction lo n body s rule: for_loop.induct)
  case (1 i n body s)
  show ?case
  proof (cases "i < n")
    case True
    have b: "body i s = body' i s" "I (body i s)" using 1(2) 1(3) [of i s] True by auto
    have "for_loop (i + 1) n body (body i s) = for_loop (i + 1) n body' (body i s)"
    proof (rule "1.IH" [OF True b(2)])
      fix k t assume "i + 1 \<le> k" "k < n" "I t"
      then show "body k t = body' k t \<and> I (body k t)" using 1(3) [of k t] by linarith
    qed
    then show ?thesis using b by (simp add: for_loop_unfold True)
  next
    case False
    then show ?thesis by (simp add: for_loop_done)
  qed
qed

lemma solveSweep_fold:
  "solveSweep s =
     fold (\<lambda>(j, i). solveCell j i) (List.product [1..fNumY s - 2] [1..fNumX s - 2]) s"
proof -
  have "solveSweep s = for_loop 1 (fNumY s - 1) (\<lambda>j. for_loop 1 (fNumX s - 1) (solveCell j)) s"
    unfolding solveSweep_def
  proof (rule for_loop_cong_inv [where I = "onlyFaces s"], goal_cases)
    case 1
    show ?case by simp
  next
    case (2 k t)
    have "fNumX t = fNumX s" using onlyFaces_fields(2) [OF 2(3)] .
    moreover have "onlyFaces s (for_loop 1 (fNumX s - 1) (solveCell k) t)"
      by (rule for_loop_inv [where P = "onlyFaces s", OF 2(3)])
         (rule onlyFaces_trans [OF _ solveCell_onlyFaces])
    ultimately show ?case by simp
  qed
  also have "\<dots> = fold (\<lambda>j. fold (solveCell j) [1..fNumX s - 2]) [1..fNumY s - 2] s"
  proof -
    have "(\<lambda>j. for_loop 1 (fNumX s - 1) (solveCell j)) = (\<lambda>j. fold (solveCell j) [1..fNumX s - 2])"
      by (rule ext, rule ext) (simp add: for_loop_fold)
    then show ?thesis by (simp add: for_loop_fold)
  qed
  finally show ?thesis by (simp add: fold_product)
qed

lemma solveIncompressibility_funpow: "solveIncompressibility s = (solveSweep ^^ 30) s"
proof -
  have "length [0 :: int..30 - 1] = 30" by simp
  then show ?thesis
    unfolding solveIncompressibility_def Let_def for_loop_fold fold_const_funpow by simp
qed

lemma solveCell_solid: "rd (cellType s) (getCellIndex s i j) = SOLID \<Longrightarrow> solveCell j i s = s"
  by (simp add: solveCell_def getCellIndex_def)

text \<open>
  C1. A solid cell is skipped. At an interior cell that is not solid, \<open>solveCell\<close> is the
  update the specification describes (\<open>relaxCell_spec\<close>). One sweep applies \<open>solveCell\<close>
  once to every interior cell, row by row, and \<open>solveIncompressibility\<close> is exactly 30
  sweeps.
\<close>

theorem pressure_solve_update:
  "(rd (cellType s) (getCellIndex s i j) = SOLID \<longrightarrow> solveCell j i s = s) \<and>
   (1 \<le> i \<and> i < fNumX s - 1 \<and> 1 \<le> j \<and> j < fNumY s - 1 \<and>
    rd (cellType s) (getCellIndex s i j) \<noteq> SOLID \<longrightarrow> solveCell j i s = relaxCell_spec j i s) \<and>
   solveSweep s =
     fold (\<lambda>(j, i). solveCell j i) (List.product [1..fNumY s - 2] [1..fNumX s - 2]) s \<and>
   solveIncompressibility s = (solveSweep ^^ 30) s"
proof (intro conjI impI)
  assume "rd (cellType s) (getCellIndex s i j) = SOLID"
  then show "solveCell j i s = s" by (rule solveCell_solid)
next
  assume a: "1 \<le> i \<and> i < fNumX s - 1 \<and> 1 \<le> j \<and> j < fNumY s - 1 \<and>
    rd (cellType s) (getCellIndex s i j) \<noteq> SOLID"
  then have "fNumX s \<noteq> 0" by auto
  with a show "solveCell j i s = relaxCell_spec j i s"
    using solveCell_relaxCell_spec by blast
next
  show "solveSweep s =
     fold (\<lambda>(j, i). solveCell j i) (List.product [1..fNumY s - 2] [1..fNumX s - 2]) s"
    by (rule solveSweep_fold)
next
  show "solveIncompressibility s = (solveSweep ^^ 30) s"
    by (rule solveIncompressibility_funpow)
qed

theorem pressure_solve_update_witness:
  "((1 :: int) \<le> 1 \<and> 1 < fNumX (exampleSim\<lparr>sim_u := wr (sim_u exampleSim) 8 1\<rparr>) - 1 \<and>
    (1 :: int) \<le> 1 \<and> 1 < fNumY (exampleSim\<lparr>sim_u := wr (sim_u exampleSim) 8 1\<rparr>) - 1 \<and>
    rd (cellType (exampleSim\<lparr>sim_u := wr (sim_u exampleSim) 8 1\<rparr>))
       (getCellIndex (exampleSim\<lparr>sim_u := wr (sim_u exampleSim) 8 1\<rparr>) 1 1) \<noteq> SOLID) \<and>
   rd (sim_u (solveCell 1 1 (exampleSim\<lparr>sim_u := wr (sim_u exampleSim) 8 1\<rparr>))) 7 = 0 \<and>
   rd (sim_u (solveCell 1 1 (exampleSim\<lparr>sim_u := wr (sim_u exampleSim) 8 1\<rparr>))) 8 = 0.05 \<and>
   rd (sim_v (solveCell 1 1 (exampleSim\<lparr>sim_u := wr (sim_u exampleSim) 8 1\<rparr>))) 6 = 0 \<and>
   rd (sim_v (solveCell 1 1 (exampleSim\<lparr>sim_u := wr (sim_u exampleSim) 8 1\<rparr>))) 11 = - 0.95"
proof -
  let ?s = "exampleSim\<lparr>sim_u := wr (sim_u exampleSim) 8 1\<rparr>"
  have f: "fNumX ?s = 5" "fNumY ?s = 5" "cellType ?s = cellType exampleSim"
    "sim_v ?s = replicate 30 0" "pDensity ?s = replicate 25 0" "overRelaxation ?s = 1.9"
    "sim_u ?s = wr (replicate 30 0) 8 1"
    by (simp_all add: exampleSim_fields) (simp add: exampleSim_def)
  have ct: "rd (cellType exampleSim) 6 = 1" "rd (cellType exampleSim) 5 = 2"
    "rd (cellType exampleSim) 7 = 1" "rd (cellType exampleSim) 1 = 2" "rd (cellType exampleSim) 11 = 1"
    by (simp_all add: exampleSim_fields rd_def inRange_def)
  have h: "(1 :: int) \<le> 1 \<and> 1 < fNumX ?s - 1 \<and> (1 :: int) \<le> 1 \<and> 1 < fNumY ?s - 1 \<and>
    rd (cellType ?s) (getCellIndex ?s 1 1) \<noteq> SOLID"
    by (simp add: f getCellIndex_def ct SOLID_def)
  have e: "solveCell 1 1 ?s = relaxCell_spec 1 1 ?s"
    using pressure_solve_update [of ?s 1 1] h by blast
  have r: "relaxCell_spec 1 1 ?s =
     ?s\<lparr>sim_u := wr (wr (wr (replicate 30 0) 8 1) 7 0) 8 0.05,
        sim_v := wr (wr (replicate 30 0) 6 0) 11 (- 0.95)\<rparr>"
    by (simp add: relaxCell_spec_def Let_def f getUIndex_def getVIndex_def getCellIndex_def ct
        SOLID_def rd_wr_cases)
  show ?thesis
    unfolding e r using h by (simp add: rd_wr_cases)
qed

subsection \<open>Splatting a uniform value and sampling it back\<close>

lemma splatFace_uniform:
  assumes "length (fst gw) = length (snd gw)"
    and "\<And>i. inRange (fst gw) i \<Longrightarrow> rd (fst gw) i = c * rd (snd gw) i"
    and "inRange (fst gw) i"
  shows "rd (fst (splatFace k c w gw)) i = c * rd (snd (splatFace k c w gw)) i"
proof -
  obtain g wt where gw: "gw = (g, wt)" by (cases gw)
  have r: "inRange wt i = inRange g i" for i
    using assms(1) by (simp add: gw inRange_def)
  show ?thesis
    using assms(2) [OF assms(3)] assms(3)
    by (auto simp: gw splatFace_def rd_wr_cases r algebra_simps)
qed

lemma splatToGrid_uniform:
  assumes "length (fst gw) = length (snd gw)"
    and "\<And>i. inRange (fst gw) i \<Longrightarrow> rd (fst gw) i = c * rd (snd gw) i"
    and "inRange (fst gw) i"
  shows "rd (fst (splatToGrid s x y c gw ox oy cols rows)) i =
         c * rd (snd (splatToGrid s x y c gw ox oy cols rows)) i"
proof -
  have step: "length (fst (splatFace k c w gw')) = length (snd (splatFace k c w gw')) \<and>
      (\<forall>i. inRange (fst (splatFace k c w gw')) i \<longrightarrow>
         rd (fst (splatFace k c w gw')) i = c * rd (snd (splatFace k c w gw')) i)"
    if "length (fst gw') = length (snd gw') \<and>
      (\<forall>i. inRange (fst gw') i \<longrightarrow> rd (fst gw') i = c * rd (snd gw') i)" for k w gw'
  proof (intro conjI allI impI)
    show "length (fst (splatFace k c w gw')) = length (snd (splatFace k c w gw'))"
      using that by simp
    fix i assume "inRange (fst (splatFace k c w gw')) i"
    then have "inRange (fst gw') i" by (simp add: inRange_def)
    then show "rd (fst (splatFace k c w gw')) i = c * rd (snd (splatFace k c w gw')) i"
      using splatFace_uniform [where gw = gw' and c = c and i = i and k = k and w = w] that by blast
  qed
  have 0: "length (fst gw) = length (snd gw) \<and>
      (\<forall>i. inRange (fst gw) i \<longrightarrow> rd (fst gw) i = c * rd (snd gw) i)"
    using assms(1,2) by blast
  have "inRange (fst (splatToGrid s x y c gw ox oy cols rows)) i"
    using assms(3) by (simp add: inRange_def)
  then show ?thesis
    unfolding splatToGrid_def Let_def
    using step [OF step [OF step [OF step [OF 0]]]] by blast
qed

lemma fold_splatParticle_uniform:
  assumes "length (fst (fst st)) = length (snd (fst st))"
    and "\<forall>i. inRange (fst (fst st)) i \<longrightarrow> rd (fst (fst st)) i = c * rd (snd (fst st)) i"
    and "\<forall>p \<in> set ps. p_u p = c"
  shows "\<forall>i. inRange (fst (fst st)) i \<longrightarrow>
      rd (fst (fst (fold (splatParticle s) ps st))) i = c * rd (snd (fst (fold (splatParticle s) ps st))) i"
  using assms
proof (induction ps arbitrary: st)
  case Nil
  then show ?case by simp
next
  case (Cons p ps)
  obtain uw vw where st: "st = (uw, vw)" by (cases st)
  let ?st = "splatParticle s p st"
  have u: "fst ?st = splatToGrid s (p_x p) (p_y p) c uw 0.0 0.5 (fNumX s + 1) (fNumY s)"
    using Cons.prems(3) by (simp add: st splatParticle_def)
  have l: "length (fst (fst ?st)) = length (snd (fst ?st))"
    using Cons.prems(1) by (simp add: st splatParticle_def)
  have r: "inRange (fst (fst ?st)) i = inRange (fst (fst st)) i" for i
    by (simp add: st splatParticle_def inRange_def)
  have a: "\<forall>i. inRange (fst (fst ?st)) i \<longrightarrow> rd (fst (fst ?st)) i = c * rd (snd (fst ?st)) i"
  proof (intro allI impI)
    fix i assume "inRange (fst (fst ?st)) i"
    then have "inRange (fst uw) i" using r [of i] by (simp add: st)
    then show "rd (fst (fst ?st)) i = c * rd (snd (fst ?st)) i"
      unfolding u using Cons.prems(1,2) splatToGrid_uniform [where gw = uw and i = i and c = c]
      by (simp add: st)
  qed
  have "\<forall>i. inRange (fst (fst ?st)) i \<longrightarrow>
      rd (fst (fst (fold (splatParticle s) ps ?st))) i = c * rd (snd (fst (fold (splatParticle s) ps ?st))) i"
    by (rule Cons.IH [OF l a]) (use Cons.prems(3) in simp)
  then show ?case by (simp add: r)
qed

lemma fold_splatParticle_uniform_v:
  assumes "length (fst (snd st)) = length (snd (snd st))"
    and "\<forall>i. inRange (fst (snd st)) i \<longrightarrow> rd (fst (snd st)) i = c * rd (snd (snd st)) i"
    and "\<forall>p \<in> set ps. p_v p = c"
  shows "\<forall>i. inRange (fst (snd st)) i \<longrightarrow>
      rd (fst (snd (fold (splatParticle s) ps st))) i = c * rd (snd (snd (fold (splatParticle s) ps st))) i"
  using assms
proof (induction ps arbitrary: st)
  case Nil
  then show ?case by simp
next
  case (Cons p ps)
  obtain uw vw where st: "st = (uw, vw)" by (cases st)
  let ?st = "splatParticle s p st"
  have u: "snd ?st = splatToGrid s (p_x p) (p_y p) c vw 0.5 0.0 (fNumX s) (fNumY s + 1)"
    using Cons.prems(3) by (simp add: st splatParticle_def)
  have l: "length (fst (snd ?st)) = length (snd (snd ?st))"
    using Cons.prems(1) by (simp add: st splatParticle_def)
  have r: "inRange (fst (snd ?st)) i = inRange (fst (snd st)) i" for i
    by (simp add: st splatParticle_def inRange_def)
  have a: "\<forall>i. inRange (fst (snd ?st)) i \<longrightarrow> rd (fst (snd ?st)) i = c * rd (snd (snd ?st)) i"
  proof (intro allI impI)
    fix i assume "inRange (fst (snd ?st)) i"
    then have "inRange (fst vw) i" using r [of i] by (simp add: st)
    then show "rd (fst (snd ?st)) i = c * rd (snd (snd ?st)) i"
      unfolding u using Cons.prems(1,2) splatToGrid_uniform [where gw = vw and i = i and c = c]
      by (simp add: st)
  qed
  have "\<forall>i. inRange (fst (snd ?st)) i \<longrightarrow>
      rd (fst (snd (fold (splatParticle s) ps ?st))) i = c * rd (snd (snd (fold (splatParticle s) ps ?st))) i"
    by (rule Cons.IH [OF l a]) (use Cons.prems(3) in simp)
  then show ?case by (simp add: r)
qed

lemma sampleGrid_uniform:
  assumes "\<forall>k \<in> set (stencil s x y ox oy cols rows). rd grid k = c"
  shows "sampleGrid s x y grid ox oy cols rows = c"
  using assms by (simp add: sampleGrid_def stencil_def Let_def algebra_simps)

lemma enforceCell_writes:
  "rd (sim_u (enforceCell m j i t)) k \<noteq> rd (sim_u t) k \<Longrightarrow>
     rd (cellType t) (i + j * m) = SOLID \<and> (k = i + j * (m + 1) \<or> k = i + 1 + j * (m + 1))"
  "rd (sim_v (enforceCell m j i t)) k \<noteq> rd (sim_v t) k \<Longrightarrow>
     rd (cellType t) (i + j * m) = SOLID \<and> (k = i + j * m \<or> k = i + (j + 1) * m)"
  by (auto simp: enforceCell_def Let_def rd_wr_cases split: if_splits)

lemma enforceBoundaries_frame:
  assumes "\<And>j i t. 0 \<le> i \<Longrightarrow> i < fNumX s \<Longrightarrow> 0 \<le> j \<Longrightarrow> j < fNumY s \<Longrightarrow> onlyFaces s t \<Longrightarrow>
             F (enforceCell (fNumX s) j i t) = F t"
  shows "F (enforceBoundaries s) = F s"
proof -
  let ?P = "\<lambda>r. onlyFaces s r \<and> F r = F s"
  have cell: "?P (enforceCell (fNumX s) j i r)"
    if "0 \<le> i" "i < fNumX s" "0 \<le> j" "j < fNumY s" "?P r" for j i r
    using that assms [of i j r] onlyFaces_trans [OF _ enforceCell_onlyFaces, of s r "fNumX s" j i]
    by simp
  have row: "?P (for_loop 0 (fNumX s) (enforceCell (fNumX s) j) r)"
    if "0 \<le> j" "j < fNumY s" "?P r" for j r
    by (rule for_loop_inv [where P = ?P, OF that(3)]) (use that(1,2) cell in blast)
  have "?P (enforceBoundaries s)"
    unfolding enforceBoundaries_def Let_def
    by (rule for_loop_inv [where P = ?P]) (use row in auto)
  then show ?thesis by simp
qed

lemma enforceBoundaries_u_frame:
  assumes "\<forall>i j. 0 \<le> i \<and> i < fNumX s \<and> 0 \<le> j \<and> j < fNumY s \<and>
             rd (cellType s) (getCellIndex s i j) = SOLID \<longrightarrow>
             k \<noteq> getUIndex s i j \<and> k \<noteq> getUIndex s (i + 1) j"
  shows "rd (sim_u (enforceBoundaries s)) k = rd (sim_u s) k"
proof (rule enforceBoundaries_frame [where F = "\<lambda>t. rd (sim_u t) k"], goal_cases)
  case (1 j i t)
  note f = onlyFaces_fields [OF 1(5)]
  show ?case
  proof (rule ccontr)
    assume "rd (sim_u (enforceCell (fNumX s) j i t)) k \<noteq> rd (sim_u t) k"
    from enforceCell_writes(1) [OF this]
    have "rd (cellType s) (getCellIndex s i j) = SOLID"
      and "k = getUIndex s i j \<or> k = getUIndex s (i + 1) j"
      by (auto simp: f getCellIndex_def getUIndex_def)
    with assms 1(1-4) show False by blast
  qed
qed

lemma enforceBoundaries_v_frame:
  assumes "\<forall>i j. 0 \<le> i \<and> i < fNumX s \<and> 0 \<le> j \<and> j < fNumY s \<and>
             rd (cellType s) (getCellIndex s i j) = SOLID \<longrightarrow>
             k \<noteq> getVIndex s i j \<and> k \<noteq> getVIndex s i (j + 1)"
  shows "rd (sim_v (enforceBoundaries s)) k = rd (sim_v s) k"
proof (rule enforceBoundaries_frame [where F = "\<lambda>t. rd (sim_v t) k"], goal_cases)
  case (1 j i t)
  note f = onlyFaces_fields [OF 1(5)]
  show ?case
  proof (rule ccontr)
    assume "rd (sim_v (enforceCell (fNumX s) j i t)) k \<noteq> rd (sim_v t) k"
    from enforceCell_writes(2) [OF this]
    have "rd (cellType s) (getCellIndex s i j) = SOLID"
      and "k = getVIndex s i j \<or> k = getVIndex s i (j + 1)"
      by (auto simp: f getCellIndex_def getVIndex_def)
    with assms 1(1-4) show False by blast
  qed
qed

lemma splatAndNormalize_uniform_u:
  assumes l: "length (uWeight s) = length (sim_u s)"
    and c: "\<forall>p \<in> set (particles s). p_u p = c"
    and k: "inRange (sim_u s) k" "0 < rd (uWeight (splatAndNormalize s)) k"
  shows "rd (sim_u (splatAndNormalize s)) k = c"
proof -
  let ?init = "((replicate (length (sim_u s)) (0 :: real), replicate (length (uWeight s)) (0 :: real)),
        (replicate (length (sim_v s)) (0 :: real), replicate (length (vWeight s)) (0 :: real)))"
  let ?acc = "fold (splatParticle s) (particles s) ?init"
  have "\<forall>i. inRange (fst (fst ?init)) i \<longrightarrow>
      rd (fst (fst ?acc)) i = c * rd (snd (fst ?acc)) i"
    by (rule fold_splatParticle_uniform) (use l c in auto)
  then have g: "rd (fst (fst ?acc)) k = c * rd (uWeight (splatAndNormalize s)) k"
    using k(1) by (simp add: splatAndNormalize_fields inRange_def)
  have "inRange (fst (fst ?acc)) k"
    using k(1) fold_splatParticle_length [of s "particles s" ?init] by (simp add: inRange_def)
  then have "rd (sim_u (splatAndNormalize s)) k =
     rd (fst (fst ?acc)) k / rd (uWeight (splatAndNormalize s)) k"
    using normalizeGrid_rd [of "uWeight (splatAndNormalize s)" "fst (fst ?acc)"] k(2)
    by (simp add: splatAndNormalize_fields(3))
  then show ?thesis using g k(2) by simp
qed

lemma splatAndNormalize_uniform_v:
  assumes l: "length (vWeight s) = length (sim_v s)"
    and c: "\<forall>p \<in> set (particles s). p_v p = c"
    and k: "inRange (sim_v s) k" "0 < rd (vWeight (splatAndNormalize s)) k"
  shows "rd (sim_v (splatAndNormalize s)) k = c"
proof -
  let ?init = "((replicate (length (sim_u s)) (0 :: real), replicate (length (uWeight s)) (0 :: real)),
        (replicate (length (sim_v s)) (0 :: real), replicate (length (vWeight s)) (0 :: real)))"
  let ?acc = "fold (splatParticle s) (particles s) ?init"
  have "\<forall>i. inRange (fst (snd ?init)) i \<longrightarrow>
      rd (fst (snd ?acc)) i = c * rd (snd (snd ?acc)) i"
    by (rule fold_splatParticle_uniform_v) (use l c in auto)
  then have g: "rd (fst (snd ?acc)) k = c * rd (vWeight (splatAndNormalize s)) k"
    using k(1) by (simp add: splatAndNormalize_fields inRange_def)
  have "inRange (fst (snd ?acc)) k"
    using k(1) fold_splatParticle_length [of s "particles s" ?init] by (simp add: inRange_def)
  then have "rd (sim_v (splatAndNormalize s)) k =
     rd (fst (snd ?acc)) k / rd (vWeight (splatAndNormalize s)) k"
    using normalizeGrid_rd [of "vWeight (splatAndNormalize s)" "fst (snd ?acc)"] k(2)
    by (simp add: splatAndNormalize_fields(4))
  then show ?thesis using g k(2) by simp
qed

text \<open>
  C5. Let every particle carry the horizontal velocity \<open>c\<close>. After the transfer to the
  grid, \<open>sampleGrid\<close> of the \<open>u\<close> array returns \<open>c\<close> at every point whose four stencil faces
  lie in the array, have a weight greater than 0 and belong to no solid cell (so that
  \<open>enforceBoundaries\<close> does not zero them). The same holds for the vertical velocity and
  the \<open>v\<close> array. The equality is exact, the numbers being reals.
\<close>

theorem uniform_splat_sample_identity:
  "(length (uWeight s) = length (sim_u s) \<and> (\<forall>p \<in> set (particles s). p_u p = c) \<and>
    (\<forall>k \<in> set (stencil s x y 0 0.5 (fNumX s + 1) (fNumY s)).
        inRange (sim_u s) k \<and> 0 < rd (uWeight (transferParticlesToGrid s)) k \<and>
        (\<forall>i j. 0 \<le> i \<and> i < fNumX s \<and> 0 \<le> j \<and> j < fNumY s \<and>
               rd (cellType s) (getCellIndex s i j) = SOLID \<longrightarrow>
               k \<noteq> getUIndex s i j \<and> k \<noteq> getUIndex s (i + 1) j)) \<longrightarrow>
    sampleGrid (transferParticlesToGrid s) x y (sim_u (transferParticlesToGrid s))
      0 0.5 (fNumX s + 1) (fNumY s) = c) \<and>
   (length (vWeight s) = length (sim_v s) \<and> (\<forall>p \<in> set (particles s). p_v p = c) \<and>
    (\<forall>k \<in> set (stencil s x y 0.5 0 (fNumX s) (fNumY s + 1)).
        inRange (sim_v s) k \<and> 0 < rd (vWeight (transferParticlesToGrid s)) k \<and>
        (\<forall>i j. 0 \<le> i \<and> i < fNumX s \<and> 0 \<le> j \<and> j < fNumY s \<and>
               rd (cellType s) (getCellIndex s i j) = SOLID \<longrightarrow>
               k \<noteq> getVIndex s i j \<and> k \<noteq> getVIndex s i (j + 1))) \<longrightarrow>
    sampleGrid (transferParticlesToGrid s) x y (sim_v (transferParticlesToGrid s))
      0.5 0 (fNumX s) (fNumY s + 1) = c)"
proof (intro conjI impI)
  let ?t = "splatAndNormalize s"
  note f = onlyFaces_fields [OF enforceBoundaries_onlyFaces, of ?t]
  assume a: "length (uWeight s) = length (sim_u s) \<and> (\<forall>p \<in> set (particles s). p_u p = c) \<and>
    (\<forall>k \<in> set (stencil s x y 0 0.5 (fNumX s + 1) (fNumY s)).
        inRange (sim_u s) k \<and> 0 < rd (uWeight (transferParticlesToGrid s)) k \<and>
        (\<forall>i j. 0 \<le> i \<and> i < fNumX s \<and> 0 \<le> j \<and> j < fNumY s \<and>
               rd (cellType s) (getCellIndex s i j) = SOLID \<longrightarrow>
               k \<noteq> getUIndex s i j \<and> k \<noteq> getUIndex s (i + 1) j))"
  have "rd (sim_u (transferParticlesToGrid s)) k = c"
    if k: "k \<in> set (stencil s x y 0 0.5 (fNumX s + 1) (fNumY s))" for k
  proof -
    from a k have r: "inRange (sim_u s) k" by blast
    from a k have "0 < rd (uWeight (transferParticlesToGrid s)) k" by blast
    then have w: "0 < rd (uWeight ?t) k" by simp
    from a k have "\<forall>i j. 0 \<le> i \<and> i < fNumX s \<and> 0 \<le> j \<and> j < fNumY s \<and>
               rd (cellType s) (getCellIndex s i j) = SOLID \<longrightarrow>
               k \<noteq> getUIndex s i j \<and> k \<noteq> getUIndex s (i + 1) j" by blast
    then have ns: "\<forall>i j. 0 \<le> i \<and> i < fNumX ?t \<and> 0 \<le> j \<and> j < fNumY ?t \<and>
               rd (cellType ?t) (getCellIndex ?t i j) = SOLID \<longrightarrow>
               k \<noteq> getUIndex ?t i j \<and> k \<noteq> getUIndex ?t (i + 1) j"
      by (simp add: splatAndNormalize_fields(5-8) getCellIndex_def getUIndex_def)
    have "rd (sim_u (enforceBoundaries ?t)) k = rd (sim_u ?t) k"
      by (rule enforceBoundaries_u_frame [OF ns])
    also have "\<dots> = c"
      by (rule splatAndNormalize_uniform_u) (use a r w in auto)
    finally show ?thesis by (simp add: transferParticlesToGrid_def)
  qed
  moreover have "stencil (transferParticlesToGrid s) x y 0 0.5 (fNumX s + 1) (fNumY s) =
     stencil s x y 0 0.5 (fNumX s + 1) (fNumY s)"
    using f(4) by (simp add: stencil_def transferParticlesToGrid_def splatAndNormalize_fields)
  ultimately show "sampleGrid (transferParticlesToGrid s) x y (sim_u (transferParticlesToGrid s))
      0 0.5 (fNumX s + 1) (fNumY s) = c"
    by (intro sampleGrid_uniform) simp
next
  let ?t = "splatAndNormalize s"
  note f = onlyFaces_fields [OF enforceBoundaries_onlyFaces, of ?t]
  assume a: "length (vWeight s) = length (sim_v s) \<and> (\<forall>p \<in> set (particles s). p_v p = c) \<and>
    (\<forall>k \<in> set (stencil s x y 0.5 0 (fNumX s) (fNumY s + 1)).
        inRange (sim_v s) k \<and> 0 < rd (vWeight (transferParticlesToGrid s)) k \<and>
        (\<forall>i j. 0 \<le> i \<and> i < fNumX s \<and> 0 \<le> j \<and> j < fNumY s \<and>
               rd (cellType s) (getCellIndex s i j) = SOLID \<longrightarrow>
               k \<noteq> getVIndex s i j \<and> k \<noteq> getVIndex s i (j + 1)))"
  have "rd (sim_v (transferParticlesToGrid s)) k = c"
    if k: "k \<in> set (stencil s x y 0.5 0 (fNumX s) (fNumY s + 1))" for k
  proof -
    from a k have r: "inRange (sim_v s) k" by blast
    from a k have "0 < rd (vWeight (transferParticlesToGrid s)) k" by blast
    then have w: "0 < rd (vWeight ?t) k" by simp
    from a k have "\<forall>i j. 0 \<le> i \<and> i < fNumX s \<and> 0 \<le> j \<and> j < fNumY s \<and>
               rd (cellType s) (getCellIndex s i j) = SOLID \<longrightarrow>
               k \<noteq> getVIndex s i j \<and> k \<noteq> getVIndex s i (j + 1)" by blast
    then have ns: "\<forall>i j. 0 \<le> i \<and> i < fNumX ?t \<and> 0 \<le> j \<and> j < fNumY ?t \<and>
               rd (cellType ?t) (getCellIndex ?t i j) = SOLID \<longrightarrow>
               k \<noteq> getVIndex ?t i j \<and> k \<noteq> getVIndex ?t i (j + 1)"
      by (simp add: splatAndNormalize_fields(5-8) getCellIndex_def getVIndex_def)
    have "rd (sim_v (enforceBoundaries ?t)) k = rd (sim_v ?t) k"
      by (rule enforceBoundaries_v_frame [OF ns])
    also have "\<dots> = c"
      by (rule splatAndNormalize_uniform_v) (use a r w in auto)
    finally show ?thesis by (simp add: transferParticlesToGrid_def)
  qed
  moreover have "stencil (transferParticlesToGrid s) x y 0.5 0 (fNumX s) (fNumY s + 1) =
     stencil s x y 0.5 0 (fNumX s) (fNumY s + 1)"
    using f(4) by (simp add: stencil_def transferParticlesToGrid_def splatAndNormalize_fields)
  ultimately show "sampleGrid (transferParticlesToGrid s) x y (sim_v (transferParticlesToGrid s))
      0.5 0 (fNumX s) (fNumY s + 1) = c"
    by (intro sampleGrid_uniform) simp
qed

lemma uniformSim_fields:
  "fNumX (uniformSim c) = 5" "fNumY (uniformSim c) = 5" "sim_h (uniformSim c) = 10"
  "sim_u (uniformSim c) = replicate 30 0" "sim_v (uniformSim c) = replicate 30 0"
  "uWeight (uniformSim c) = replicate 30 0" "vWeight (uniformSim c) = replicate 30 0"
  "cellType (uniformSim c) = cellType exampleSim"
  "particles (uniformSim c) =
     [\<lparr>p_x = 20, p_y = 28, p_u = c, p_v = c\<rparr>, \<lparr>p_x = 20, p_y = 36.5, p_u = c, p_v = c\<rparr>,
      \<lparr>p_x = 28.5, p_y = 28, p_u = c, p_v = c\<rparr>, \<lparr>p_x = 28.5, p_y = 36.5, p_u = c, p_v = c\<rparr>]"
  by (simp_all add: uniformSim_def exampleSim_fields Particle_def)

lemma uniformSim_stencils:
  "stencil (uniformSim c) 25 30 0 0.5 6 5 = [14, 15, 20, 21]"
  "stencil (uniformSim c) 20 28 0.5 0 5 6 = [11, 12, 16, 17]"
  by (simp_all add: stencil_def uniformSim_fields Let_def)

lemma uniformSim_uWeights:
  "0 < rd (uWeight (splatAndNormalize (uniformSim c))) 14"
  "0 < rd (uWeight (splatAndNormalize (uniformSim c))) 15"
  "0 < rd (uWeight (splatAndNormalize (uniformSim c))) 20"
  "0 < rd (uWeight (splatAndNormalize (uniformSim c))) 21"
  by (simp_all add: splatAndNormalize_fields uniformSim_fields splatParticle_def splatToGrid_def
      Let_def splatFace_def rd_wr_cases)

lemma uniformSim_vWeights:
  "0 < rd (vWeight (splatAndNormalize (uniformSim c))) 11"
  "0 < rd (vWeight (splatAndNormalize (uniformSim c))) 12"
  "0 < rd (vWeight (splatAndNormalize (uniformSim c))) 16"
  "0 < rd (vWeight (splatAndNormalize (uniformSim c))) 17"
  by (simp_all add: splatAndNormalize_fields uniformSim_fields splatParticle_def splatToGrid_def
      Let_def splatFace_def rd_wr_cases)

lemma exampleSim_interior_cells:
  "rd (cellType exampleSim) 6 = 1" "rd (cellType exampleSim) 7 = 1" "rd (cellType exampleSim) 8 = 1"
  "rd (cellType exampleSim) 11 = 1" "rd (cellType exampleSim) 12 = 1" "rd (cellType exampleSim) 13 = 1"
  "rd (cellType exampleSim) 16 = 1" "rd (cellType exampleSim) 17 = 1" "rd (cellType exampleSim) 18 = 1"
  by (simp_all add: exampleSim_fields rd_def inRange_def)

lemma exampleSim_solid_ring:
  assumes "0 \<le> i" "i < 5" "0 \<le> j" "j < 5" and "rd (cellType exampleSim) (i + j * 5) = SOLID"
  shows "i = 0 \<or> i = 4 \<or> j = 0 \<or> j = 4"
proof (rule ccontr)
  assume "\<not> (i = 0 \<or> i = 4 \<or> j = 0 \<or> j = 4)"
  with assms(1-4) have "i + j * 5 \<in> {6, 7, 8, 11, 12, 13, 16, 17, 18}" by simp arith
  then have "rd (cellType exampleSim) (i + j * 5) = 1"
    using exampleSim_interior_cells by auto
  with assms(5) show False by (simp add: SOLID_def)
qed

lemma exampleSim_interior_u:
  assumes "k \<in> {14, 15, 20, 21}" "0 \<le> i" "i < 5" "0 \<le> j" "j < 5"
    and "rd (cellType exampleSim) (i + j * 5) = SOLID"
  shows "k \<noteq> i + j * 6 \<and> k \<noteq> i + 1 + j * 6"
  using exampleSim_solid_ring [OF assms(2-6)] assms(1-5) by simp arith

lemma exampleSim_interior_v:
  assumes "k \<in> {11, 12, 16, 17}" "0 \<le> i" "i < 5" "0 \<le> j" "j < 5"
    and "rd (cellType exampleSim) (i + j * 5) = SOLID"
  shows "k \<noteq> i + j * 5 \<and> k \<noteq> i + (j + 1) * 5"
  using exampleSim_solid_ring [OF assms(2-6)] assms(1-5) by simp arith

theorem uniform_splat_sample_identity_witness:
  "(length (uWeight (uniformSim 3)) = length (sim_u (uniformSim 3)) \<and>
    map p_u (particles (uniformSim 3)) = [3, 3, 3, 3] \<and>
    stencil (uniformSim 3) 25 30 0 0.5 (fNumX (uniformSim 3) + 1) (fNumY (uniformSim 3)) = [14, 15, 20, 21] \<and>
    0 < rd (uWeight (transferParticlesToGrid (uniformSim 3))) 14 \<and>
    0 < rd (uWeight (transferParticlesToGrid (uniformSim 3))) 15 \<and>
    0 < rd (uWeight (transferParticlesToGrid (uniformSim 3))) 20 \<and>
    0 < rd (uWeight (transferParticlesToGrid (uniformSim 3))) 21) \<and>
   sampleGrid (transferParticlesToGrid (uniformSim 3)) 25 30
      (sim_u (transferParticlesToGrid (uniformSim 3))) 0 0.5 6 5 = 3 \<and>
   (length (vWeight (uniformSim 3)) = length (sim_v (uniformSim 3)) \<and>
    map p_v (particles (uniformSim 3)) = [3, 3, 3, 3] \<and>
    stencil (uniformSim 3) 20 28 0.5 0 (fNumX (uniformSim 3)) (fNumY (uniformSim 3) + 1) = [11, 12, 16, 17] \<and>
    0 < rd (vWeight (transferParticlesToGrid (uniformSim 3))) 11 \<and>
    0 < rd (vWeight (transferParticlesToGrid (uniformSim 3))) 12 \<and>
    0 < rd (vWeight (transferParticlesToGrid (uniformSim 3))) 16 \<and>
    0 < rd (vWeight (transferParticlesToGrid (uniformSim 3))) 17) \<and>
   sampleGrid (transferParticlesToGrid (uniformSim 3)) 20 28
      (sim_v (transferParticlesToGrid (uniformSim 3))) 0.5 0 5 6 = 3"
proof -
  let ?s = "uniformSim 3"
  have su: "stencil ?s 25 30 0 0.5 (fNumX ?s + 1) (fNumY ?s) = [14, 15, 20, 21]"
    and sv: "stencil ?s 20 28 0.5 0 (fNumX ?s) (fNumY ?s + 1) = [11, 12, 16, 17]"
    using uniformSim_stencils [of 3] by (simp_all add: uniformSim_fields)
  have l: "length (uWeight ?s) = length (sim_u ?s)" "length (vWeight ?s) = length (sim_v ?s)"
    by (simp_all add: uniformSim_fields)
  have p: "\<forall>p \<in> set (particles ?s). p_u p = 3" "\<forall>p \<in> set (particles ?s). p_v p = 3"
    by (simp_all add: uniformSim_fields)
  have wu: "\<forall>k \<in> {14, 15, 20, 21}.
        inRange (sim_u ?s) k \<and> 0 < rd (uWeight (transferParticlesToGrid ?s)) k"
    using uniformSim_uWeights [of 3] by (simp add: uniformSim_fields)
  have wv: "\<forall>k \<in> {11, 12, 16, 17}.
        inRange (sim_v ?s) k \<and> 0 < rd (vWeight (transferParticlesToGrid ?s)) k"
    using uniformSim_vWeights [of 3] by (simp add: uniformSim_fields)
  have nu: "\<forall>k \<in> {14, 15, 20, 21}. \<forall>i j. 0 \<le> i \<and> i < fNumX ?s \<and> 0 \<le> j \<and> j < fNumY ?s \<and>
               rd (cellType ?s) (getCellIndex ?s i j) = SOLID \<longrightarrow>
               k \<noteq> getUIndex ?s i j \<and> k \<noteq> getUIndex ?s (i + 1) j"
    using exampleSim_interior_u
    by (simp add: uniformSim_fields getCellIndex_def getUIndex_def add.commute add.left_commute)
  have nv: "\<forall>k \<in> {11, 12, 16, 17}. \<forall>i j. 0 \<le> i \<and> i < fNumX ?s \<and> 0 \<le> j \<and> j < fNumY ?s \<and>
               rd (cellType ?s) (getCellIndex ?s i j) = SOLID \<longrightarrow>
               k \<noteq> getVIndex ?s i j \<and> k \<noteq> getVIndex ?s i (j + 1)"
    using exampleSim_interior_v
    by (simp add: uniformSim_fields getCellIndex_def getVIndex_def)
  have hu: "\<forall>k \<in> set (stencil ?s 25 30 0 0.5 (fNumX ?s + 1) (fNumY ?s)).
        inRange (sim_u ?s) k \<and> 0 < rd (uWeight (transferParticlesToGrid ?s)) k \<and>
        (\<forall>i j. 0 \<le> i \<and> i < fNumX ?s \<and> 0 \<le> j \<and> j < fNumY ?s \<and>
               rd (cellType ?s) (getCellIndex ?s i j) = SOLID \<longrightarrow>
               k \<noteq> getUIndex ?s i j \<and> k \<noteq> getUIndex ?s (i + 1) j)"
    unfolding su using wu nu by simp
  have hv: "\<forall>k \<in> set (stencil ?s 20 28 0.5 0 (fNumX ?s) (fNumY ?s + 1)).
        inRange (sim_v ?s) k \<and> 0 < rd (vWeight (transferParticlesToGrid ?s)) k \<and>
        (\<forall>i j. 0 \<le> i \<and> i < fNumX ?s \<and> 0 \<le> j \<and> j < fNumY ?s \<and>
               rd (cellType ?s) (getCellIndex ?s i j) = SOLID \<longrightarrow>
               k \<noteq> getVIndex ?s i j \<and> k \<noteq> getVIndex ?s i (j + 1))"
    unfolding sv using wv nv by simp
  have "sampleGrid (transferParticlesToGrid ?s) 25 30 (sim_u (transferParticlesToGrid ?s))
      0 0.5 (fNumX ?s + 1) (fNumY ?s) = 3"
    using uniform_splat_sample_identity [of ?s 3 25 30] l(1) p(1) hu by blast
  moreover have "sampleGrid (transferParticlesToGrid ?s) 20 28 (sim_v (transferParticlesToGrid ?s))
      0.5 0 (fNumX ?s) (fNumY ?s + 1) = 3"
    using uniform_splat_sample_identity [of ?s 3 20 28] l(2) p(2) hv by blast
  moreover have "map p_u (particles ?s) = [3, 3, 3, 3]" "map p_v (particles ?s) = [3, 3, 3, 3]"
    by (simp_all add: uniformSim_fields)
  ultimately show ?thesis using l su sv wu wv by (simp add: uniformSim_fields(1,2))
qed

subsection \<open>The particle count\<close>

lemma splatAndNormalize_particles [simp]: "particles (splatAndNormalize s) = particles s"
  by (simp add: splatAndNormalize_def Let_def split: prod.splits)

lemma transferParticlesToGrid_particles [simp]:
  "particles (transferParticlesToGrid s) = particles s"
  using onlyFaces_fields(1) [OF enforceBoundaries_onlyFaces, of "splatAndNormalize s"]
  by (simp add: transferParticlesToGrid_def)

lemma calculateParticleDensity_particles [simp]:
  "particles (calculateParticleDensity s) = particles s"
  by (simp add: calculateParticleDensity_def)

lemma wavePaddle_particles [simp]: "particles (wavePaddle s) = particles s"
  by (rule onlyFaces_fields(1) [OF wavePaddle_onlyFaces])

lemma solveIncompressibility_particles [simp]:
  "particles (solveIncompressibility s) = particles s"
  by (rule onlyFaces_fields(1) [OF solveIncompressibility_onlyFaces])

lemma transferGridToParticles_length [simp]:
  "length (particles (transferGridToParticles r s)) = length (particles s)"
  by (simp add: transferGridToParticles_def)

lemma typedArraySet_SomeD:
  assumes "typedArraySet target source = Some r"
  shows "length r = length target" and "length target = length source \<Longrightarrow> r = source"
  using assms by (auto simp: typedArraySet_def split: if_splits)

lemma snapshotGrid_SomeD:
  assumes "snapshotGrid s = Some g"
  shows "\<exists>a b. g = s\<lparr>du := a, dv := b\<rparr> \<and>
           (length (du s) = length (sim_u s) \<longrightarrow> a = sim_u s) \<and>
           (length (dv s) = length (sim_v s) \<longrightarrow> b = sim_v s)"
proof -
  from assms obtain a b where a: "typedArraySet (du s) (sim_u s) = Some a"
    and b: "typedArraySet (dv s) (sim_v s) = Some b" and g: "g = s\<lparr>du := a, dv := b\<rparr>"
    by (auto simp: snapshotGrid_def bind_eq_Some_conv)
  show ?thesis
    using typedArraySet_SomeD(2) [OF a] typedArraySet_SomeD(2) [OF b] g by blast
qed

lemma snapshotGrid_total:
  assumes "length (sim_u s) \<le> length (du s)" and "length (sim_v s) \<le> length (dv s)"
  shows "\<exists>g. snapshotGrid s = Some g"
  using assms by (simp add: snapshotGrid_def typedArraySet_def)

lemma splatAndNormalize_lengths:
  "length (sim_u (splatAndNormalize s)) = length (sim_u s)"
  "length (sim_v (splatAndNormalize s)) = length (sim_v s)"
  using fold_splatParticle_length [of s "particles s"
      "((replicate (length (sim_u s)) 0, replicate (length (uWeight s)) 0),
        (replicate (length (sim_v s)) 0, replicate (length (vWeight s)) 0))"]
    normalizeGrid_rd
  by (simp_all add: splatAndNormalize_fields)

text \<open>The state that \<open>integrate\<close> hands to the snapshot: what it shares with the state
  after advection.\<close>

lemma preSnapshot_fields:
  fixes s1 :: sim
  defines "g \<equiv> wavePaddle (calculateParticleDensity (transferParticlesToGrid s1))"
  shows "particles g = particles s1" "du g = du s1" "dv g = dv s1"
    "length (sim_u g) = length (sim_u s1)" "length (sim_v g) = length (sim_v s1)"
proof -
  let ?a = "splatAndNormalize s1"
  let ?b = "transferParticlesToGrid s1"
  let ?c = "calculateParticleDensity ?b"
  note fb = onlyFaces_fields [OF enforceBoundaries_onlyFaces, of ?a]
  note fg = onlyFaces_fields [OF wavePaddle_onlyFaces, of ?c]
  have b: "du ?b = du s1" "dv ?b = dv s1" "length (sim_u ?b) = length (sim_u s1)"
    "length (sim_v ?b) = length (sim_v s1)"
    using fb(7,8,14,15)
    by (simp_all add: transferParticlesToGrid_def splatAndNormalize_fields(10,11)
        splatAndNormalize_lengths)
  have c: "du ?c = du ?b" "dv ?c = dv ?b" "sim_u ?c = sim_u ?b" "sim_v ?c = sim_v ?b"
    by (simp_all add: calculateParticleDensity_def)
  show "particles g = particles s1" by (simp add: g_def)
  show "du g = du s1" "dv g = dv s1"
    "length (sim_u g) = length (sim_u s1)" "length (sim_v g) = length (sim_v s1)"
    using fg(7,8,14,15) b c by (simp_all add: g_def)
qed

lemma integrate_SomeD:
  assumes "integrate dt s = Some s'"
  shows "\<exists>s1 g. advectParticles dt (s\<lparr>totalTime := totalTime s + dt\<rparr>) = Some s1 \<and>
           snapshotGrid (wavePaddle (calculateParticleDensity (transferParticlesToGrid s1))) = Some g \<and>
           s' = transferGridToParticles 0.95 (solveIncompressibility g)"
  using assms by (auto simp: integrate_def bind_eq_Some_conv)

lemma integrate_length:
  assumes "integrate dt s = Some s'"
  shows "length (particles s') = length (particles s)"
proof -
  from integrate_SomeD [OF assms] obtain s1 g where
    a: "advectParticles dt (s\<lparr>totalTime := totalTime s + dt\<rparr>) = Some s1"
    and g: "snapshotGrid (wavePaddle (calculateParticleDensity (transferParticlesToGrid s1))) = Some g"
    and s': "s' = transferGridToParticles 0.95 (solveIncompressibility g)"
    by blast
  from advectParticles_frame [OF a] have "length (particles s1) = length (particles s)" by auto
  moreover from snapshotGrid_SomeD [OF g] have "particles g = particles s1"
    by (auto simp: preSnapshot_fields)
  ultimately show ?thesis by (simp add: s')
qed

lemma integrate_total:
  assumes "1 \<le> fNumX s" and "1 \<le> fNumY s"
    and "length (sim_u s) \<le> length (du s)" and "length (sim_v s) \<le> length (dv s)"
  shows "\<exists>s'. integrate dt s = Some s'"
proof -
  obtain s1 where a: "advectParticles dt (s\<lparr>totalTime := totalTime s + dt\<rparr>) = Some s1"
    using advectParticles_total [of "s\<lparr>totalTime := totalTime s + dt\<rparr>" dt] assms(1,2) by auto
  from advectParticles_frame [OF a] obtain ps where
    s1: "s1 = s\<lparr>totalTime := totalTime s + dt, particles := ps\<rparr>" by auto
  have "\<exists>g. snapshotGrid (wavePaddle (calculateParticleDensity (transferParticlesToGrid s1))) = Some g"
    by (rule snapshotGrid_total) (use assms(3,4) in \<open>simp_all add: preSnapshot_fields s1\<close>)
  with a show ?thesis by (auto simp: integrate_def)
qed

text \<open>
  C9. A call of \<open>integrate\<close> that completes leaves the number of particles as it was,
  whatever \<open>dt\<close> is; and every call completes on a grid with at least one cell in each
  direction whose snapshot arrays are no shorter than the face arrays.
\<close>

theorem integrate_particle_count:
  "(\<forall>s'. integrate dt s = Some s' \<longrightarrow> length (particles s') = length (particles s)) \<and>
   (1 \<le> fNumX s \<and> 1 \<le> fNumY s \<and>
    length (sim_u s) \<le> length (du s) \<and> length (sim_v s) \<le> length (dv s) \<longrightarrow>
      (\<exists>s'. integrate dt s = Some s' \<and> length (particles s') = length (particles s)))"
  using integrate_length integrate_total by blast

theorem integrate_particle_count_witness:
  "(1 \<le> fNumX exampleSim \<and> 1 \<le> fNumY exampleSim \<and>
    length (sim_u exampleSim) \<le> length (du exampleSim) \<and>
    length (sim_v exampleSim) \<le> length (dv exampleSim)) \<and>
   (\<exists>s'. integrate (1 / 10) exampleSim = Some s' \<and> length (particles s') = 4)"
proof -
  have h: "1 \<le> fNumX exampleSim \<and> 1 \<le> fNumY exampleSim \<and>
    length (sim_u exampleSim) \<le> length (du exampleSim) \<and>
    length (sim_v exampleSim) \<le> length (dv exampleSim)"
    by (simp add: exampleSim_def)
  have n: "length (particles exampleSim) = 4" by (simp add: exampleSim_def)
  from integrate_particle_count [of "1 / 10" exampleSim] h n show ?thesis by simp
qed

subsection \<open>The wall clamp\<close>

lemma wallClamp_range:
  assumes "buffer \<le> width - buffer" and "buffer \<le> height - buffer"
  shows "buffer \<le> p_x (wallClamp width height buffer p)"
    and "p_x (wallClamp width height buffer p) \<le> width - buffer"
    and "buffer \<le> p_y (wallClamp width height buffer p)"
    and "p_y (wallClamp width height buffer p) \<le> height - buffer"
  using assms by (auto simp: wallClamp_def Let_def)

lemma buffer_fits:
  fixes h :: real
  assumes "0 < h" and "3 \<le> n"
  shows "h * 1.1 \<le> of_int n * h - h * 1.1"
proof -
  have "(3 :: real) \<le> of_int n" using assms(2) by linarith
  then have "3 * h \<le> of_int n * h" using assms(1) by simp
  then show ?thesis using assms(1) by simp
qed

lemma blendParticle_position [simp]:
  "p_x (blendParticle s r p) = p_x p" "p_y (blendParticle s r p) = p_y p"
  by (simp_all add: blendParticle_def Let_def)

lemma integrate_positions:
  assumes "integrate dt s = Some s'"
  shows "\<exists>s1. advectParticles dt (s\<lparr>totalTime := totalTime s + dt\<rparr>) = Some s1 \<and>
     map p_x (particles s') = map p_x (particles s1) \<and>
     map p_y (particles s') = map p_y (particles s1)"
proof -
  from integrate_SomeD [OF assms] obtain s1 g where
    a: "advectParticles dt (s\<lparr>totalTime := totalTime s + dt\<rparr>) = Some s1"
    and g: "snapshotGrid (wavePaddle (calculateParticleDensity (transferParticlesToGrid s1))) = Some g"
    and s': "s' = transferGridToParticles 0.95 (solveIncompressibility g)"
    by blast
  from snapshotGrid_SomeD [OF g] have p: "particles g = particles s1"
    by (auto simp: preSnapshot_fields)
  have "map p_x (particles s') = map p_x (particles s1)" "map p_y (particles s') = map p_y (particles s1)"
    by (simp_all add: s' transferGridToParticles_def comp_def p)
  with a show ?thesis by blast
qed

lemma integrate_clamped:
  assumes h: "0 < sim_h s" and X: "3 \<le> fNumX s" and Y: "3 \<le> fNumY s"
    and i: "integrate dt s = Some s'" and p: "p \<in> set (particles s')"
  shows "sim_h s * 1.1 \<le> p_x p \<and> p_x p \<le> of_int (fNumX s) * sim_h s - sim_h s * 1.1 \<and>
         sim_h s * 1.1 \<le> p_y p \<and> p_y p \<le> of_int (fNumY s) * sim_h s - sim_h s * 1.1"
proof -
  let ?s0 = "s\<lparr>totalTime := totalTime s + dt\<rparr>"
  let ?W = "of_int (fNumX s) * sim_h s" and ?H = "of_int (fNumY s) * sim_h s"
  let ?B = "sim_h s * 1.1"
  from integrate_positions [OF i] obtain s1 where a: "advectParticles dt ?s0 = Some s1"
    and xs: "map p_x (particles s') = map p_x (particles s1)"
    and ys: "map p_y (particles s') = map p_y (particles s1)" by blast
  from advectParticles_frame [OF a] obtain ps where
    s1: "particles s1 = map (wallClamp ?W ?H ?B) ps" by auto
  from p obtain k where k: "k < length (particles s')" "p = particles s' ! k"
    by (auto simp: in_set_conv_nth)
  have l: "length (particles s') = length ps"
    using arg_cong [OF xs, of length] s1 by simp
  have "p_x p = map p_x (particles s') ! k" "p_y p = map p_y (particles s') ! k"
    using k by simp_all
  then have px: "p_x p = p_x (wallClamp ?W ?H ?B (ps ! k))"
    and py: "p_y p = p_y (wallClamp ?W ?H ?B (ps ! k))"
    using k l by (simp_all add: xs ys s1)
  note r = wallClamp_range [OF buffer_fits [OF h X] buffer_fits [OF h Y], of "ps ! k"]
  show ?thesis unfolding px py using r by blast
qed

text \<open>
  C6. The phases after the wall clamp leave every particle where the clamp put it; and on
  a grid of positive cell size with at least three cells in each direction (and snapshot
  arrays no shorter than the face arrays), every call of \<open>integrate\<close> completes with every
  particle inside \<open>[buffer, domain - buffer]\<close> on both axes, where \<open>buffer = 1.1 * h\<close> and the
  domain is \<open>fNumX * h\<close> by \<open>fNumY * h\<close>.
\<close>

theorem integrate_positions_in_domain:
  "(\<forall>s'. integrate dt s = Some s' \<longrightarrow>
      (\<exists>s1. advectParticles dt (s\<lparr>totalTime := totalTime s + dt\<rparr>) = Some s1 \<and>
         map p_x (particles s') = map p_x (particles s1) \<and>
         map p_y (particles s') = map p_y (particles s1))) \<and>
   (0 < sim_h s \<and> 3 \<le> fNumX s \<and> 3 \<le> fNumY s \<and>
    length (sim_u s) \<le> length (du s) \<and> length (sim_v s) \<le> length (dv s) \<longrightarrow>
      (\<exists>s'. integrate dt s = Some s' \<and>
         (\<forall>p \<in> set (particles s').
            sim_h s * 1.1 \<le> p_x p \<and> p_x p \<le> of_int (fNumX s) * sim_h s - sim_h s * 1.1 \<and>
            sim_h s * 1.1 \<le> p_y p \<and> p_y p \<le> of_int (fNumY s) * sim_h s - sim_h s * 1.1)))"
proof (intro conjI allI impI)
  fix s' assume "integrate dt s = Some s'"
  then show "\<exists>s1. advectParticles dt (s\<lparr>totalTime := totalTime s + dt\<rparr>) = Some s1 \<and>
         map p_x (particles s') = map p_x (particles s1) \<and>
         map p_y (particles s') = map p_y (particles s1)"
    by (rule integrate_positions)
next
  assume g: "0 < sim_h s \<and> 3 \<le> fNumX s \<and> 3 \<le> fNumY s \<and>
    length (sim_u s) \<le> length (du s) \<and> length (sim_v s) \<le> length (dv s)"
  then obtain s' where i: "integrate dt s = Some s'"
    using integrate_total [of s dt] by auto
  show "\<exists>s'. integrate dt s = Some s' \<and>
         (\<forall>p \<in> set (particles s').
            sim_h s * 1.1 \<le> p_x p \<and> p_x p \<le> of_int (fNumX s) * sim_h s - sim_h s * 1.1 \<and>
            sim_h s * 1.1 \<le> p_y p \<and> p_y p \<le> of_int (fNumY s) * sim_h s - sim_h s * 1.1)"
    using i integrate_clamped [of s dt s'] g by blast
qed

theorem integrate_positions_in_domain_witness:
  "(0 < sim_h exampleSim \<and> 3 \<le> fNumX exampleSim \<and> 3 \<le> fNumY exampleSim \<and>
    length (sim_u exampleSim) \<le> length (du exampleSim) \<and>
    length (sim_v exampleSim) \<le> length (dv exampleSim)) \<and>
   (\<exists>s'. integrate (1 / 10) exampleSim = Some s' \<and> particles s' \<noteq> [] \<and>
      (\<forall>p \<in> set (particles s').
          11 \<le> p_x p \<and> p_x p \<le> 39 \<and> 11 \<le> p_y p \<and> p_y p \<le> 39))"
proof -
  have h: "0 < sim_h exampleSim \<and> 3 \<le> fNumX exampleSim \<and> 3 \<le> fNumY exampleSim \<and>
    length (sim_u exampleSim) \<le> length (du exampleSim) \<and>
    length (sim_v exampleSim) \<le> length (dv exampleSim)"
    by (simp add: exampleSim_def)
  have v: "sim_h exampleSim = 10" "fNumX exampleSim = 5" "fNumY exampleSim = 5"
    "length (particles exampleSim) = 4"
    by (simp_all add: exampleSim_def)
  from integrate_positions_in_domain [of "1 / 10" exampleSim] h
  obtain s' where s': "integrate (1 / 10) exampleSim = Some s'"
    "\<forall>p \<in> set (particles s').
        sim_h exampleSim * 1.1 \<le> p_x p \<and> p_x p \<le> of_int (fNumX exampleSim) * sim_h exampleSim - sim_h exampleSim * 1.1 \<and>
        sim_h exampleSim * 1.1 \<le> p_y p \<and> p_y p \<le> of_int (fNumY exampleSim) * sim_h exampleSim - sim_h exampleSim * 1.1"
    by blast
  from integrate_length [OF s'(1)] v have "particles s' \<noteq> []" by auto
  with s' h show ?thesis by (simp add: v)
qed

subsection \<open>What a sub-step keeps of the grid\<close>




subsection \<open>The FLIP/PIC blend\<close>






subsection \<open>Separation of one pair of particles in the corner cell\<close>

lemma walkChain_stop: "walkChain radius nxt i (- 1) ps = Some ps"
  by (subst walkChain.simps) simp

lemma walkChain_step:
  "nb \<noteq> - 1 \<Longrightarrow> walkChain radius nxt i nb ps =
     walkChain radius nxt i (rd nxt nb) (if nb \<noteq> i then pushApart radius i nb ps else ps)"
  by (subst walkChain.simps) simp

lemma for_loop_three:
  "for_loop (- 1) 2 body s = body 1 (body 0 (body (- 1) s))"
  by (simp add: for_loop_unfold for_loop_done)

lemma for_loop_two:
  "for_loop 0 2 body s = body 1 (body 0 s)"
  by (simp add: for_loop_unfold for_loop_done)

lemma for_loop_one:
  "for_loop 0 1 body s = body 0 s"
  by (simp add: for_loop_unfold for_loop_done)

lemma fillHash_pair:
  assumes "1 \<le> fNumX s" "1 \<le> fNumY s" "particles s = [p0, p1]"
    and "\<lfloor>p_x p0 * invH\<rfloor> = 0" "\<lfloor>p_y p0 * invH\<rfloor> = 0"
    and "\<lfloor>p_x p1 * invH\<rfloor> = 0" "\<lfloor>p_y p1 * invH\<rfloor> = 0"
  shows "fillHash s invH (replicate (nat (fNumX s * fNumY s)) (- 1), replicate (length (particles s)) (- 1)) =
     (wr (wr (replicate (nat (fNumX s * fNumY s)) (- 1)) 0 0) 0 1, [- 1, 0])"
proof -
  have c: "max 0 (min (fNumX s - 1) 0) = 0" "max 0 (min (fNumY s - 1) 0) = 0"
    using assms(1,2) by simp_all
  have N: "0 < fNumX s * fNumY s" using assms(1,2) by simp
  have r: "rd [p0, p1] 0 = p0" "rd [p0, p1] 1 = p1" by (simp_all add: rd_def inRange_def)
  have h: "rd (replicate (nat (fNumX s * fNumY s)) (- 1 :: int)) 0 = - 1"
    "rd (wr (replicate (nat (fNumX s * fNumY s)) (- 1 :: int)) 0 0) 0 = 0"
    using N by (simp_all add: rd_wr_cases)
  have n: "wr (wr [- 1, - 1 :: int] 0 (- 1)) 1 0 = [- 1, 0]"
    by (simp add: wr_def inRange_def)
  show ?thesis
    unfolding fillHash_def assms(3)
    by (simp add: for_loop_two Let_def r assms(4-7) c h n)
qed

lemma pair_heads:
  assumes "1 \<le> fNumX s" "1 \<le> fNumY s"
  shows "rd (wr (wr (replicate (nat (fNumX s * fNumY s)) (- 1)) 0 0) 0 1) 0 = 1"
    and "0 \<le> nx \<Longrightarrow> nx < fNumX s \<Longrightarrow> 0 \<le> ny \<Longrightarrow> ny < fNumY s \<Longrightarrow> nx \<noteq> 0 \<or> ny \<noteq> 0 \<Longrightarrow>
           rd (wr (wr (replicate (nat (fNumX s * fNumY s)) (- 1)) 0 0) 0 1) (nx + ny * fNumX s) = - 1"
proof -
  have N: "0 < fNumX s * fNumY s" using assms by simp
  show "rd (wr (wr (replicate (nat (fNumX s * fNumY s)) (- 1)) 0 0) 0 1) 0 = 1"
    using N by (simp add: rd_wr_cases)
  assume a: "0 \<le> nx" "nx < fNumX s" "0 \<le> ny" "ny < fNumY s" "nx \<noteq> 0 \<or> ny \<noteq> 0"
  have z: "nx + ny * fNumX s \<noteq> 0"
  proof (cases "ny = 0")
    case True
    with a show ?thesis by simp
  next
    case False
    with a have "0 < ny" by simp
    moreover have "0 < fNumX s" using assms(1) by simp
    ultimately have "0 < ny * fNumX s" by (rule mult_pos_pos)
    with a show ?thesis by simp
  qed
  have "inRange (replicate (nat (fNumX s * fNumY s)) (- 1 :: int)) (nx + ny * fNumX s)"
    using cell_index_range [OF a(1-4)] by simp
  then show "rd (wr (wr (replicate (nat (fNumX s * fNumY s)) (- 1)) 0 0) 0 1) (nx + ny * fNumX s) = - 1"
    using z by (simp add: rd_wr_cases)
qed

lemma bind_walkChain_stop: "Option.bind st (walkChain radius nxt i (- 1)) = st"
  by (cases st) (simp_all add: walkChain_stop)

lemma scanNeighbors_pair:
  assumes g: "1 \<le> fNumX s" "1 \<le> fNumY s"
    and fh: "fh = wr (wr (replicate (nat (fNumX s * fNumY s)) (- 1)) 0 0) 0 1"
    and c: "\<lfloor>p_x (rd ps i) * invH\<rfloor> = 0" "\<lfloor>p_y (rd ps i) * invH\<rfloor> = 0"
  shows "scanNeighbors s invH fh nxt i (Some ps) = walkChain (sim_h s) nxt i 1 ps"
proof -
  define B where "B = (\<lambda>nx ny st'.
      if nx < 0 \<or> nx \<ge> fNumX s \<or> ny < 0 \<or> ny \<ge> fNumY s then st'
      else Option.bind st' (walkChain (sim_h s) nxt i (rd fh (nx + ny * fNumX s))))"
  have skip: "B nx ny st = st" if "nx \<noteq> 0 \<or> ny \<noteq> 0" for nx ny st
  proof (cases "nx < 0 \<or> nx \<ge> fNumX s \<or> ny < 0 \<or> ny \<ge> fNumY s")
    case True
    then show ?thesis by (simp add: B_def)
  next
    case False
    then have "rd fh (nx + ny * fNumX s) = - 1"
      unfolding fh using pair_heads(2) [OF g, of nx ny] that by simp
    with False show ?thesis by (simp add: B_def bind_walkChain_stop)
  qed
  have "B 0 0 (Some ps) = walkChain (sim_h s) nxt i (rd fh 0) ps"
    using g by (simp add: B_def)
  then have hit: "B 0 0 (Some ps) = walkChain (sim_h s) nxt i 1 ps"
    unfolding fh pair_heads(1) [OF g] .
  have "scanNeighbors s invH fh nxt i (Some ps) =
      for_loop (- 1) 2 (\<lambda>nx. for_loop (- 1) 2 (B nx)) (Some ps)"
    by (simp add: scanNeighbors_def Let_def c B_def)
  also have "\<dots> = walkChain (sim_h s) nxt i 1 ps"
    by (simp add: for_loop_three skip hit)
  finally show ?thesis .
qed

lemma walkChain_pair_first:
  "walkChain radius [- 1, 0] 0 1 ps = Some (pushApart radius 0 1 ps)"
proof -
  have r: "rd [- 1, 0 :: int] 1 = 0" "rd [- 1, 0 :: int] 0 = - 1" by (simp_all add: rd_def inRange_def)
  show ?thesis
    by (simp add: walkChain_step r walkChain_stop)
qed

lemma walkChain_pair_second:
  "walkChain radius [- 1, 0] 1 1 ps = Some (pushApart radius 1 0 ps)"
proof -
  have r: "rd [- 1, 0 :: int] 1 = 0" "rd [- 1, 0 :: int] 0 = - 1" by (simp_all add: rd_def inRange_def)
  show ?thesis
    by (simp add: walkChain_step r walkChain_stop)
qed

lemma separateParticles_pair:
  assumes g: "1 \<le> fNumX s" "1 \<le> fNumY s" and p: "particles s = [p0, p1]"
    and c0: "\<lfloor>p_x p0 * (1 / sim_h s)\<rfloor> = 0" "\<lfloor>p_y p0 * (1 / sim_h s)\<rfloor> = 0"
    and c1: "\<lfloor>p_x p1 * (1 / sim_h s)\<rfloor> = 0" "\<lfloor>p_y p1 * (1 / sim_h s)\<rfloor> = 0"
    and c2: "\<lfloor>p_x (rd (pushApart (sim_h s) 0 1 [p0, p1]) 1) * (1 / sim_h s)\<rfloor> = 0"
            "\<lfloor>p_y (rd (pushApart (sim_h s) 0 1 [p0, p1]) 1) * (1 / sim_h s)\<rfloor> = 0"
  shows "separateParticles s =
     Some (s\<lparr>particles := pushApart (sim_h s) 1 0 (pushApart (sim_h s) 0 1 [p0, p1])\<rparr>)"
proof -
  let ?fh = "wr (wr (replicate (nat (fNumX s * fNumY s)) (- 1)) 0 0) 0 1"
  let ?invH = "1 / sim_h s"
  have N: "\<not> fNumX s * fNumY s < 0" using g by (simp add: not_less)
  have fill: "fillHash s ?invH (replicate (nat (fNumX s * fNumY s)) (- 1), [- 1, - 1]) =
      (?fh, [- 1, 0])"
    using fillHash_pair [OF g p c0 c1] by (simp add: p)
  have r0: "rd [p0, p1] 0 = p0" by (simp add: rd_def inRange_def)
  have s0: "scanNeighbors s ?invH ?fh [- 1, 0] 0 (Some [p0, p1]) =
      Some (pushApart (sim_h s) 0 1 [p0, p1])"
    using scanNeighbors_pair [OF g refl, of "[p0, p1]" 0 ?invH "[- 1, 0]"] c0
    by (simp add: r0 walkChain_pair_first)
  have s1: "scanNeighbors s ?invH ?fh [- 1, 0] 1 (Some (pushApart (sim_h s) 0 1 [p0, p1])) =
      Some (pushApart (sim_h s) 1 0 (pushApart (sim_h s) 0 1 [p0, p1]))"
    using scanNeighbors_pair [OF g refl, of "pushApart (sim_h s) 0 1 [p0, p1]" 1 ?invH "[- 1, 0]"] c2
    by (simp add: walkChain_pair_second)
  show ?thesis
    unfolding separateParticles_def
    using N by (simp add: Let_def fill p for_loop_one for_loop_two s0 s1)
qed

lemma pushApart_pair_apart:
  assumes r: "0.002 < r" and p: "p_x p0 = 0" "p_y p0 = 0" "p_x p1 = 0" "p_y p1 = r / 2"
  shows "pushApart r 0 1 [p0, p1] = [p0\<lparr>p_y := - (r / 4)\<rparr>, p1\<lparr>p_y := 3 * r / 4\<rparr>]"
proof -
  have r0: "0 < r" using r by simp
  have rd: "rd [p0, p1] 0 = p0" "rd [p0, p1] 1 = p1" by (simp_all add: rd_def inRange_def)
  define distSq where "distSq = (p_x p0 - p_x p1) * (p_x p0 - p_x p1) + (p_y p0 - p_y p1) * (p_y p0 - p_y p1)"
  have d: "distSq = (r / 2) * (r / 2)" by (simp add: distSq_def p)
  have "sqrt distSq = \<bar>r / 2\<bar>" unfolding d by (rule real_sqrt_abs2)
  then have s: "sqrt distSq = r / 2" using r0 by simp
  have "(1 / 1000) * (1 / 1000) < (r / 2) * (r / 2)"
    by (rule mult_strict_mono) (use r in simp_all)
  then have lo: "distSq > 0.000001" unfolding d by simp
  have "(r / 2) * (r / 2) < r * r"
    by (rule mult_strict_mono) (use r0 in simp_all)
  then have hi: "distSq < r * r" unfolding d .
  have w: "wr (wr [p0, p1] 0 a) 1 b = [a, b]" for a b :: particle
    by (simp add: wr_def inRange_def)
  have r1: "rd (wr [p0, p1] 0 a) 1 = p1" for a
    by (simp add: rd_wr_cases rd)
  have e0: "p0\<lparr>p_x := p_x p0 + 0, p_y := p_y p0 + - (r / 4)\<rparr> = p0\<lparr>p_y := - (r / 4)\<rparr>"
    by (simp add: p)
  have e1: "p1\<lparr>p_x := p_x p1 - 0, p_y := p_y p1 - - (r / 4)\<rparr> = p1\<lparr>p_y := 3 * r / 4\<rparr>"
    by (simp add: p)
  have fx: "(p_x p0 - p_x p1) / sqrt distSq * ((r - sqrt distSq) * 0.5) = 0" by (simp add: p)
  have fy: "(p_y p0 - p_y p1) / sqrt distSq * ((r - sqrt distSq) * 0.5) = - (r / 4)"
    unfolding s using r0 by (simp add: p)
  show ?thesis
    unfolding pushApart_def Let_def rd distSq_def [symmetric] r1 w fx fy
    using lo hi e0 e1 by simp
qed

lemma pushApart_pair_back:
  assumes r: "0 < r" and p: "p_x p0 = 0" "p_x p1 = 0" "p_y p1 - p_y p0 = r"
  shows "pushApart r 1 0 [p0, p1] = [p0, p1]"
proof -
  have rd: "rd [p0, p1] 0 = p0" "rd [p0, p1] 1 = p1" by (simp_all add: rd_def inRange_def)
  have "(p_x p1 - p_x p0) * (p_x p1 - p_x p0) + (p_y p1 - p_y p0) * (p_y p1 - p_y p0) = r * r"
    by (simp add: p)
  then show ?thesis
    by (simp add: pushApart_def Let_def rd)
qed

lemma pushApart_pair_close:
  assumes "(p_x (rd ps i) - p_x (rd ps k)) * (p_x (rd ps i) - p_x (rd ps k)) +
           (p_y (rd ps i) - p_y (rd ps k)) * (p_y (rd ps i) - p_y (rd ps k)) \<le> 0.000001"
  shows "pushApart r i k ps = ps"
  using assms by (simp add: pushApart_def Let_def)

text \<open>
  C3, as amended. On a grid with at least one cell in each direction and a cell size \<open>r\<close>
  above 0.002 (so that the squared distance \<open>(r / 2)\<^sup>2\<close> passes the guard
  \<open>distSq > 0.000001\<close>), one separation pass over the two particles at \<open>(0, 0)\<close> and
  \<open>(0, r / 2)\<close> moves each by \<open>(r - r / 2) * 0.5 = r / 4\<close> along the y-axis, away from the
  other, to \<open>(0, - r / 4)\<close> and \<open>(0, 3 r / 4)\<close>; they are then exactly \<open>r\<close> apart and the
  visit of the second particle changes nothing.
\<close>

theorem separation_scenario:
  assumes "1 \<le> fNumX s" "1 \<le> fNumY s" "sim_h s = r" "0.002 < r"
    and "particles s = [p0, p1]"
    and "p_x p0 = 0" "p_y p0 = 0" "p_x p1 = 0" "p_y p1 = r / 2"
  shows "separateParticles s = Some (s\<lparr>particles := [p0\<lparr>p_y := - (r / 4)\<rparr>, p1\<lparr>p_y := 3 * r / 4\<rparr>]\<rparr>)"
proof -
  have r0: "0 < r" "r \<noteq> 0" using assms(4) by simp_all
  have h: "\<lfloor>r / 2 * (1 / r)\<rfloor> = 0" "\<lfloor>3 * r / 4 * (1 / r)\<rfloor> = 0"
    using r0 by simp_all
  note a = pushApart_pair_apart [OF assms(4,6-9)]
  have b: "pushApart r 1 0 [p0\<lparr>p_y := - (r / 4)\<rparr>, p1\<lparr>p_y := 3 * r / 4\<rparr>] =
      [p0\<lparr>p_y := - (r / 4)\<rparr>, p1\<lparr>p_y := 3 * r / 4\<rparr>]"
    by (rule pushApart_pair_back [OF r0(1)]) (simp_all add: assms(6,8))
  have r1: "rd [p0\<lparr>p_y := - (r / 4)\<rparr>, p1\<lparr>p_y := 3 * r / 4\<rparr>] 1 = p1\<lparr>p_y := 3 * r / 4\<rparr>"
    by (simp add: rd_def inRange_def)
  have "separateParticles s =
     Some (s\<lparr>particles := pushApart (sim_h s) 1 0 (pushApart (sim_h s) 0 1 [p0, p1])\<rparr>)"
    by (rule separateParticles_pair [OF assms(1,2,5)])
       (simp_all add: assms(3,6-9) a r1 h)
  then show ?thesis by (simp add: assms(3) a b)
qed

lemma rd_pair: "rd [a, b] 0 = a" "rd [a, b] 1 = b"
  by (simp_all add: rd_def inRange_def)

lemma pairSim_fields:
  "fNumX (pairSim r) = 5" "fNumY (pairSim r) = 5" "sim_h (pairSim r) = r"
  "particles (pairSim r) = [Particle 0 0, Particle 0 (r / 2)]"
  by (simp_all add: pairSim_def exampleSim_fields)

theorem separation_scenario_witness:
  "(1 \<le> fNumX (pairSim 10) \<and> 1 \<le> fNumY (pairSim 10) \<and> sim_h (pairSim 10) = 10 \<and> (0.002 :: real) < 10 \<and>
    particles (pairSim 10) = [Particle 0 0, Particle 0 5]) \<and>
   separateParticles (pairSim 10) =
     Some ((pairSim 10)\<lparr>particles := [Particle 0 (- 2.5), Particle 0 7.5]\<rparr>)"
proof -
  have h: "1 \<le> fNumX (pairSim 10)" "1 \<le> fNumY (pairSim 10)" "sim_h (pairSim 10) = 10"
    "(0.002 :: real) < 10" "particles (pairSim 10) = [Particle 0 0, Particle 0 5]"
    by (simp_all add: pairSim_fields)
  have p: "p_x (Particle 0 0) = 0" "p_y (Particle 0 0) = 0" "p_x (Particle 0 5) = 0"
    "p_y (Particle 0 5) = 10 / 2"
    by (simp_all add: Particle_def)
  from separation_scenario [OF h p]
  show ?thesis using h by (simp add: Particle_def)
qed

lemma separation_below_guard:
  assumes "1 \<le> fNumX s" "1 \<le> fNumY s" "sim_h s = r" "0 < r" "r \<le> 0.002"
    and "particles s = [p0, p1]"
    and "p_x p0 = 0" "p_y p0 = 0" "p_x p1 = 0" "p_y p1 = r / 2"
  shows "separateParticles s = Some s"
proof -
  have h: "\<lfloor>r / 2 * (1 / r)\<rfloor> = 0" using assms(4) by simp
  have "(r / 2) * (r / 2) \<le> (1 / 1000) * (1 / 1000)"
    by (rule mult_mono) (use assms(4,5) in simp_all)
  then have d: "(r / 2) * (r / 2) \<le> 0.000001" by simp
  have c1: "pushApart r 0 1 [p0, p1] = [p0, p1]"
    by (rule pushApart_pair_close) (use d in \<open>simp add: rd_pair assms(7-10)\<close>)
  have c2: "pushApart r 1 0 [p0, p1] = [p0, p1]"
    by (rule pushApart_pair_close) (use d in \<open>simp add: rd_pair assms(7-10)\<close>)
  have "separateParticles s =
     Some (s\<lparr>particles := pushApart (sim_h s) 1 0 (pushApart (sim_h s) 0 1 [p0, p1])\<rparr>)"
    by (rule separateParticles_pair [OF assms(1,2,6)])
       (simp_all add: assms(3,7-10) c1 rd_pair h)
  then have "separateParticles s = Some (s\<lparr>particles := particles s\<rparr>)"
    by (simp add: assms(3,6) c1 c2)
  then show ?thesis by simp
qed

theorem separation_scenario_counterexample:
  "separateParticles (pairSim (1 / 1000)) = Some (pairSim (1 / 1000)) \<and>
   particles (pairSim (1 / 1000)) \<noteq> [Particle 0 (- ((1 / 1000) / 4)), Particle 0 (3 * (1 / 1000) / 4)]"
proof -
  let ?s = "pairSim (1 / 1000)"
  have "separateParticles ?s = Some ?s"
    by (rule separation_below_guard [where r = "1 / 1000" and ?p0.0 = "Particle 0 0"
          and ?p1.0 = "Particle 0 ((1 / 1000) / 2)"])
       (simp_all add: pairSim_fields Particle_def)
  moreover have "particles ?s \<noteq> [Particle 0 (- ((1 / 1000) / 4)), Particle 0 (3 * (1 / 1000) / 4)]"
    by (simp add: pairSim_fields Particle_def)
  ultimately show ?thesis by blast
qed

subsection \<open>Construction\<close>



lemma initGrid_frame:
  "initGrid s = s\<lparr>cellType := cellType (initGrid s)\<rparr> \<and>
   length (cellType (initGrid s)) = length (cellType s)"
proof -
  let ?P = "\<lambda>t. t = s\<lparr>cellType := cellType t\<rparr> \<and> length (cellType t) = length (cellType s)"
  have cell: "?P (let type = (if i = 0 \<or> i = fNumX t - 1 \<or> j = 0 \<or> j = fNumY t - 1
                     then SOLID else AIR)
         in t\<lparr>cellType := wr (cellType t) (i + j * fNumX t) type\<rparr>)" if "?P t" for i j t
  proof -
    from that obtain c where "t = s\<lparr>cellType := c\<rparr>" "length c = length (cellType s)" by metis
    then show ?thesis by (simp add: Let_def)
  qed
  have "?P (initGrid s)"
    unfolding initGrid_def
    by (rule for_loop_inv [where P = ?P], simp, rule for_loop_inv [where P = ?P], assumption)
       (rule cell)
  then show ?thesis .
qed

lemma seedBlock_done:
  "\<not> x < xEnd \<Longrightarrow> seedBlock rnd hh xEnd startY maxH sp x ps = Some ps"
  by (subst seedBlock.simps) simp

lemma seedBlock_step:
  "x < xEnd \<Longrightarrow> seedBlock rnd hh xEnd startY maxH sp x ps =
     (case seedColumn rnd hh maxH sp x startY ps of
        None \<Rightarrow> None
      | Some ps' \<Rightarrow> seedBlock rnd hh xEnd startY maxH sp (x + sp) ps')"
  by (subst seedBlock.simps) simp

lemma seedColumn_done:
  "\<not> y < maxH \<Longrightarrow> seedColumn rnd hh maxH sp x y ps = Some ps"
  by (subst seedColumn.simps) simp

lemma seedColumn_step:
  "y < maxH \<Longrightarrow> seedColumn rnd hh maxH sp x y ps =
     seedColumn rnd hh maxH sp x (y + sp)
       (ps @ [Particle (x + (rnd (length ps) - 0.5) * (hh * 0.1)) (y + (rnd (length ps) - 0.5) * (hh * 0.1))])"
  by (subst seedColumn.simps) (simp add: Let_def)




subsection \<open>What the constructor returns\<close>

lemma seedColumn_result:
  assumes "seedColumn rnd hh maxH sp x y ps = Some ps'"
  shows "length ps \<le> length ps' \<and> (y < maxH \<longrightarrow> 0 < sp \<and> length ps < length ps') \<and>
         (\<not> y < maxH \<longrightarrow> ps' = ps)"
proof (rule seedColumn.raw_induct [where P = "\<lambda>rnd hh maxH sp x y ps ps'.
      length ps \<le> length ps' \<and> (y < maxH \<longrightarrow> 0 < sp \<and> length ps < length ps') \<and>
         (\<not> y < maxH \<longrightarrow> ps' = ps)" and xa = "((((((rnd, hh), maxH), sp), x), y), ps)"
      and ya = ps', unfolded prod.case, OF _ assms], goal_cases)
  case (1 f rnd hh maxH sp x y ps ps')
  show ?case
  proof (cases "y < maxH")
    case False
    with 1(2) show ?thesis by simp
  next
    case True
    let ?p = "Particle (x + (rnd (length ps) - 0.5) * (hh * 0.1)) (y + (rnd (length ps) - 0.5) * (hh * 0.1))"
    from 1(2) True have "f rnd hh maxH sp x (y + sp) (ps @ [?p]) = Some ps'"
      by (simp add: Let_def)
    from 1(1) [OF this] have l: "length (ps @ [?p]) \<le> length ps'"
      and a: "y + sp < maxH \<longrightarrow> 0 < sp" by auto
    have "0 < sp" using a True by (cases "y + sp < maxH") auto
    with l True show ?thesis by simp
  qed
qed

lemma seedBlock_result:
  assumes "seedBlock rnd hh xEnd startY maxH sp x ps = Some ps'"
  shows "length ps \<le> length ps' \<and> (x < xEnd \<longrightarrow> 0 < sp) \<and>
         (length ps < length ps' \<longrightarrow> x < xEnd \<and> startY < maxH)"
proof (rule seedBlock.raw_induct [where P = "\<lambda>rnd hh xEnd startY maxH sp x ps ps'.
      length ps \<le> length ps' \<and> (x < xEnd \<longrightarrow> 0 < sp) \<and>
         (length ps < length ps' \<longrightarrow> x < xEnd \<and> startY < maxH)"
      and xa = "(((((((rnd, hh), xEnd), startY), maxH), sp), x), ps)"
      and y = ps', unfolded prod.case, OF _ assms], goal_cases)
  case (1 f rnd hh xEnd startY maxH sp x ps ps')
  show ?case
  proof (cases "x < xEnd")
    case False
    with 1(2) have "ps' = ps" by simp
    with False show ?thesis by simp
  next
    case True
    with 1(2) have eq: "(case seedColumn rnd hh maxH sp x startY ps of None \<Rightarrow> None
         | Some ps1 \<Rightarrow> f rnd hh xEnd startY maxH sp (x + sp) ps1) = Some ps'"
      by simp
    show ?thesis
    proof (cases "seedColumn rnd hh maxH sp x startY ps")
      case None
      with eq show ?thesis by simp
    next
      case (Some ps1)
      with eq have r: "f rnd hh xEnd startY maxH sp (x + sp) ps1 = Some ps'" by simp
      from seedColumn_result [OF Some] have c1: "length ps \<le> length ps1"
        and c3: "\<not> startY < maxH \<longrightarrow> ps1 = ps" by blast+
      from 1(1) [OF r] have l: "length ps1 \<le> length ps'"
        and a: "x + sp < xEnd \<longrightarrow> 0 < sp"
        and b: "length ps1 < length ps' \<longrightarrow> startY < maxH" by blast+
      have sp: "0 < sp"
      proof (cases "x + sp < xEnd")
        case True
        with a show ?thesis by simp
      next
        case False
        with \<open>x < xEnd\<close> show ?thesis by linarith
      qed
      have st: "startY < maxH" if "length ps < length ps'"
      proof (rule ccontr)
        assume n: "\<not> startY < maxH"
        with c3 have "ps1 = ps" by simp
        with that b n show False by simp
      qed
      have le: "length ps \<le> length ps'" using c1 l by simp
      show ?thesis using le sp True st by blast
    qed
  qed
qed

lemma construct_SomeD:
  assumes "construct width height spacing rnd = Some (Inr s)"
  shows "spacing \<noteq> 0" "fNumX s = \<lfloor>width / spacing\<rfloor> + 1" "fNumY s = \<lfloor>height / spacing\<rfloor> + 1"
    "sim_h s = spacing" "gridSized s"
    "length (du s) = length (sim_u s)" "length (dv s) = length (sim_v s)"
    "particles s \<noteq> [] \<Longrightarrow> 0 < sim_h s \<and> 5 \<le> fNumX s \<and> 3 \<le> fNumY s"
proof -
  define nx where "nx = \<lfloor>width / spacing\<rfloor> + 1"
  define ny where "ny = \<lfloor>height / spacing\<rfloor> + 1"
  define s0 where "s0 = \<lparr>density = 1000, gravity = 2500, overRelaxation = 1.9,
                     fNumX = nx, fNumY = ny, sim_h = spacing,
                     sim_u = replicate (nat ((nx + 1) * ny)) 0, sim_v = replicate (nat (nx * (ny + 1))) 0,
                     du = replicate (nat ((nx + 1) * ny)) 0, dv = replicate (nat (nx * (ny + 1))) 0,
                     uNew = replicate (nat ((nx + 1) * ny)) 0, vNew = replicate (nat (nx * (ny + 1))) 0,
                     uWeight = replicate (nat ((nx + 1) * ny)) 0, vWeight = replicate (nat (nx * (ny + 1))) 0,
                     pDensity = replicate (nat (nx * ny)) 0,
                     cellType = replicate (nat (nx * ny)) 0,
                     particles = [], totalTime = 0\<rparr>"
  define s1 where "s1 = initGrid s0"
  show sp: "spacing \<noteq> 0" using assms by (auto simp: construct_def split: if_splits)
  from assms sp have ok: "\<not> ((nx + 1) * ny < 0 \<or> nx * (ny + 1) < 0 \<or> nx * ny < 0)"
    and ip: "initParticles rnd s1 = Some s"
    unfolding construct_def Let_def nx_def [symmetric] ny_def [symmetric] s0_def [symmetric]
      s1_def [symmetric]
    by (auto split: if_splits)
  from initGrid_frame [of s0] obtain c where s1: "s1 = s0\<lparr>cellType := c\<rparr>"
    and c: "length c = length (cellType s0)" unfolding s1_def by metis
  from ip obtain ps where ps: "seedBlock rnd (sim_h s1) (sim_h s1 * 2 + of_int (fNumX s1 - 4) * sim_h s1)
      (of_int (fNumY s1 - 1) * sim_h s1 - of_int (fNumY s1 - 2) * sim_h s1 * 0.4)
      (of_int (fNumY s1 - 1) * sim_h s1) (sim_h s1 * 0.85) (sim_h s1 * 2) [] = Some ps"
    and s: "s = s1\<lparr>particles := ps\<rparr>"
    by (auto simp: initParticles_def Let_def)
  have f: "fNumX s = nx" "fNumY s = ny" "sim_h s = spacing" "particles s = ps"
    by (simp_all add: s s1 s0_def)
  show "fNumX s = \<lfloor>width / spacing\<rfloor> + 1" "fNumY s = \<lfloor>height / spacing\<rfloor> + 1"
    "sim_h s = spacing"
    by (simp_all add: f nx_def ny_def)
  show "gridSized s" "length (du s) = length (sim_u s)" "length (dv s) = length (sim_v s)"
    using c by (simp_all add: s s1 s0_def gridSized_def)
  show "0 < sim_h s \<and> 5 \<le> fNumX s \<and> 3 \<le> fNumY s" if "particles s \<noteq> []"
  proof -
    from that have "length ([] :: particle list) < length ps" by (simp add: f)
    with seedBlock_result [OF ps]
    have a: "sim_h s1 * 2 < sim_h s1 * 2 + of_int (fNumX s1 - 4) * sim_h s1"
      and b: "0 < sim_h s1 * 0.85"
      and d: "of_int (fNumY s1 - 1) * sim_h s1 - of_int (fNumY s1 - 2) * sim_h s1 * 0.4 <
              of_int (fNumY s1 - 1) * sim_h s1"
      by blast+
    have h: "0 < spacing" using b by (simp add: s1 s0_def)
    from a have "0 < of_int (nx - 4) * spacing" by (simp add: s1 s0_def)
    then have "0 < (of_int (nx - 4) :: real)" using h by (simp add: zero_less_mult_iff)
    then have x: "5 \<le> nx" by simp
    from d have "0 < of_int (ny - 2) * spacing * 0.4" by (simp add: s1 s0_def)
    then have "0 < (of_int (ny - 2) :: real)" using h by (simp add: zero_less_mult_iff)
    then have y: "3 \<le> ny" by simp
    show ?thesis using h x y by (simp add: f)
  qed
qed

subsection \<open>The example state\<close>

text \<open>The example state is the one the constructor builds from \<open>(45, 45, 10)\<close> when the
  jitter is zero.\<close>

lemma initGrid_example:
  "cellType (initGrid (s\<lparr>fNumX := 5, fNumY := 5, cellType := replicate 25 0\<rparr>)) =
     [2, 2, 2, 2, 2,  2, 1, 1, 1, 2,  2, 1, 1, 1, 2,  2, 1, 1, 1, 2,  2, 2, 2, 2, 2]"
proof -
  have r: "replicate 25 (0 :: int) = [0,0,0,0,0, 0,0,0,0,0, 0,0,0,0,0, 0,0,0,0,0, 0,0,0,0,0]"
    by (simp add: eval_nat_numeral)
  show ?thesis
    by (simp add: initGrid_def for_loop_unfold for_loop_done Let_def wr_def inRange_def
        SOLID_def AIR_def r eval_nat_numeral)
qed

lemma seedBlock_example:
  "seedBlock noJitter 10 30 28 40 (17 / 2) 20 [] =
     Some [Particle 20 28, Particle 20 36.5, Particle 28.5 28, Particle 28.5 36.5]"
  by (simp add: seedBlock_step seedBlock_done seedColumn_step seedColumn_done noJitter_def)

lemma construct_exampleSim: "construct 45 45 10 noJitter = Some (Inr exampleSim)"
proof -
  define s0 where "s0 = \<lparr>density = 1000, gravity = 2500, overRelaxation = 1.9,
                     fNumX = 5, fNumY = 5, sim_h = 10,
                     sim_u = replicate 30 0, sim_v = replicate 30 0,
                     du = replicate 30 0, dv = replicate 30 0,
                     uNew = replicate 30 0, vNew = replicate 30 0,
                     uWeight = replicate 30 0, vWeight = replicate 30 0,
                     pDensity = replicate 25 0,
                     cellType = replicate 25 0,
                     particles = [], totalTime = 0\<rparr>"
  have "s0\<lparr>fNumX := 5, fNumY := 5, cellType := replicate 25 0\<rparr> = s0" by (simp add: s0_def)
  with initGrid_example [of s0] initGrid_frame [of s0]
  have g: "initGrid s0 = s0\<lparr>cellType :=
      [2, 2, 2, 2, 2,  2, 1, 1, 1, 2,  2, 1, 1, 1, 2,  2, 1, 1, 1, 2,  2, 2, 2, 2, 2]\<rparr>"
    by simp
  have p: "initParticles noJitter (initGrid s0) = Some exampleSim"
    unfolding g
    using seedBlock_example by (simp add: initParticles_def Let_def s0_def exampleSim_def)
  have f: "\<lfloor>45 / 10 :: real\<rfloor> + 1 = 5" by simp
  show ?thesis
    unfolding construct_def Let_def f
    using p by (simp add: s0_def)
qed

subsection \<open>The solid ring\<close>

text \<open>\<open>initGrid\<close> marks exactly the outer ring of cells solid.\<close>

lemma for_loop_establish_ordered:
  assumes pres: "\<And>k x t. lo \<le> x \<Longrightarrow> x < k \<Longrightarrow> k < n \<Longrightarrow> I t \<Longrightarrow> R x t \<Longrightarrow> R x (body k t)"
    and est: "\<And>k t. lo \<le> k \<Longrightarrow> k < n \<Longrightarrow> I t \<Longrightarrow> R k (body k t)"
    and inv: "\<And>k t. lo \<le> k \<Longrightarrow> k < n \<Longrightarrow> I t \<Longrightarrow> I (body k t)"
    and "I s" and "lo \<le> x" and "x < n"
  shows "R x (for_loop lo n body s)"
proof -
  define Q where "Q = (\<lambda>k t. I t \<and> (\<forall>x. lo \<le> x \<and> x < k \<longrightarrow> R x t))"
  have "Q (max lo n) (for_loop lo n body s)"
  proof (rule for_loop_inv_idx [where Q = Q], goal_cases)
    case 1
    show ?case using assms(4) by (auto simp: Q_def)
  next
    case (2 k t)
    then have I: "I t" and R: "\<And>x. lo \<le> x \<Longrightarrow> x < k \<Longrightarrow> R x t" by (auto simp: Q_def)
    show ?case unfolding Q_def
    proof (intro conjI allI impI)
      show "I (body k t)" by (rule inv [OF 2(1,2) I])
      fix x assume x: "lo \<le> x \<and> x < k + 1"
      show "R x (body k t)"
      proof (cases "x = k")
        case True
        then show ?thesis using est [OF 2(1,2) I] by simp
      next
        case False
        with x have "x < k" by simp
        with x show ?thesis by (intro pres 2(2) I R) auto
      qed
    qed
  qed
  then show ?thesis using assms(5,6) by (simp add: Q_def)
qed

lemma initGrid_cells:
  assumes l: "length (cellType s) = nat (fNumX s * fNumY s)"
    and i: "0 \<le> i" "i < fNumX s" and j: "0 \<le> j" "j < fNumY s"
  shows "rd (cellType (initGrid s)) (getCellIndex s i j) =
     (if i = 0 \<or> i = fNumX s - 1 \<or> j = 0 \<or> j = fNumY s - 1 then SOLID else AIR)"
proof -
  define m where "m = fNumX s"
  define n where "n = fNumY s"
  define ty where "ty = (\<lambda>i j. if i = 0 \<or> i = m - 1 \<or> j = 0 \<or> j = n - 1 then SOLID else AIR)"
  define I :: "sim \<Rightarrow> bool" where "I = (\<lambda>t. fNumX t = m \<and> fNumY t = n \<and> length (cellType t) = nat (m * n))"
  define cell :: "int \<Rightarrow> int \<Rightarrow> sim \<Rightarrow> sim" where "cell = (\<lambda>i j t. t\<lparr>cellType := wr (cellType t) (i + j * m) (ty i j)\<rparr>)"
  have body: "(let type = (if a = 0 \<or> a = fNumX t - 1 \<or> b = 0 \<or> b = fNumY t - 1 then SOLID else AIR)
         in t\<lparr>cellType := wr (cellType t) (a + b * fNumX t) type\<rparr>) = cell a b t" if "I t" for a b t
    using that by (simp add: I_def cell_def ty_def Let_def)
  have I_cell: "I (cell a b t)" if "I t" for a b t
    using that by (simp add: I_def cell_def)
  have keep: "rd (cellType (cell a b t)) (x + y * m) = rd (cellType t) (x + y * m)"
    if "0 \<le> x" "x < m" "0 \<le> a" "a < m" "x \<noteq> a \<or> y \<noteq> b" for a b x y t
  proof -
    have "x + y * m \<noteq> a + b * m"
      using index_inj [of x y m a b] that by blast
    then show ?thesis by (simp add: cell_def rd_wr_other)
  qed
  have new: "rd (cellType (cell a b t)) (a + b * m) = ty a b"
    if "I t" "0 \<le> a" "a < m" "0 \<le> b" "b < n" for a b t
  proof -
    have "inRange (cellType t) (a + b * m)"
      using cell_index_range [OF that(2-5)] that(1) by (simp add: I_def inRange_def)
    then show ?thesis by (simp add: cell_def rd_wr_same)
  qed
  have loop: "initGrid s = for_loop 0 m (\<lambda>a. for_loop 0 n (cell a)) s"
  proof -
    have row: "for_loop 0 (fNumY s) (\<lambda>b t.
         let type = (if a = 0 \<or> a = fNumX t - 1 \<or> b = 0 \<or> b = fNumY t - 1 then SOLID else AIR)
         in t\<lparr>cellType := wr (cellType t) (a + b * fNumX t) type\<rparr>) t = for_loop 0 n (cell a) t
         \<and> I (for_loop 0 (fNumY s) (\<lambda>b t.
         let type = (if a = 0 \<or> a = fNumX t - 1 \<or> b = 0 \<or> b = fNumY t - 1 then SOLID else AIR)
         in t\<lparr>cellType := wr (cellType t) (a + b * fNumX t) type\<rparr>) t)" if "I t" for a t
    proof
      show e: "for_loop 0 (fNumY s) (\<lambda>b t.
         let type = (if a = 0 \<or> a = fNumX t - 1 \<or> b = 0 \<or> b = fNumY t - 1 then SOLID else AIR)
         in t\<lparr>cellType := wr (cellType t) (a + b * fNumX t) type\<rparr>) t = for_loop 0 n (cell a) t"
        unfolding n_def [symmetric]
        by (rule for_loop_cong_inv [where I = I, OF that]) (simp add: body I_cell)
      show "I (for_loop 0 (fNumY s) (\<lambda>b t.
         let type = (if a = 0 \<or> a = fNumX t - 1 \<or> b = 0 \<or> b = fNumY t - 1 then SOLID else AIR)
         in t\<lparr>cellType := wr (cellType t) (a + b * fNumX t) type\<rparr>) t)"
        unfolding e by (rule for_loop_inv [where P = I, OF that]) (rule I_cell)
    qed
    have "I s" using l by (simp add: I_def m_def n_def)
    then show ?thesis
      unfolding initGrid_def m_def [symmetric]
      by (rule for_loop_cong_inv [where I = I]) (use row in blast)
  qed
  have Is: "I s" using l by (simp add: I_def m_def n_def)
  have rowI: "I (for_loop 0 n (cell a) t)" if "I t" for a t
    by (rule for_loop_inv [where P = I, OF that]) (rule I_cell)
  have rowKeep: "rd (cellType (for_loop 0 n (cell a) t)) (x + y * m) = rd (cellType t) (x + y * m)"
    if "0 \<le> x" "x < m" "0 \<le> a" "a < m" "x \<noteq> a" for a x y t
    by (rule for_loop_inv [where P = "\<lambda>r. rd (cellType r) (x + y * m) = rd (cellType t) (x + y * m)"])
       (use that keep in auto)
  have rowNew: "rd (cellType (for_loop 0 n (cell a) t)) (a + b * m) = ty a b"
    if "I t" "0 \<le> a" "a < m" "0 \<le> b" "b < n" for a b t
  proof (rule for_loop_establish_ordered [where I = I
        and R = "\<lambda>y r. rd (cellType r) (a + y * m) = ty a y", OF _ _ _ that(1,4,5)], goal_cases)
    case (1 k x r)
    then show ?case using keep [where a = a and b = k and x = a and y = x and t = r] that(2,3) by simp
  next
    case (2 k r)
    then show ?case using new [where a = a and b = k and t = r] that(2,3) by simp
  next
    case (3 k r)
    then show ?case by (simp add: I_cell)
  qed
  have "rd (cellType (for_loop 0 m (\<lambda>a. for_loop 0 n (cell a)) s)) (i + j * m) = ty i j"
  proof (rule for_loop_establish_ordered [where I = I
        and R = "\<lambda>x r. rd (cellType r) (x + j * m) = ty x j", OF _ _ _ Is], goal_cases)
    case (1 k x r)
    then show ?case using rowKeep [where a = k and x = x and y = j and t = r] by simp
  next
    case (2 k r)
    then show ?case using rowNew [where a = k and b = j and t = r] j by (simp add: n_def)
  next
    case (3 k r)
    then show ?case by (simp add: rowI)
  next
    case 4
    show ?case using i by simp
  next
    case 5
    show ?case using i by (simp add: m_def)
  qed
  then show ?thesis
    by (simp add: loop getCellIndex_def m_def n_def ty_def)
qed

lemma construct_ring:
  assumes "construct width height spacing rnd = Some (Inr s)"
    and "0 \<le> i" "i < fNumX s" "0 \<le> j" "j < fNumY s"
  shows "rd (cellType s) (getCellIndex s i j) =
     (if i = 0 \<or> i = fNumX s - 1 \<or> j = 0 \<or> j = fNumY s - 1 then SOLID else AIR)"
proof -
  define nx where "nx = \<lfloor>width / spacing\<rfloor> + 1"
  define ny where "ny = \<lfloor>height / spacing\<rfloor> + 1"
  define s0 where "s0 = \<lparr>density = 1000, gravity = 2500, overRelaxation = 1.9,
                     fNumX = nx, fNumY = ny, sim_h = spacing,
                     sim_u = replicate (nat ((nx + 1) * ny)) 0, sim_v = replicate (nat (nx * (ny + 1))) 0,
                     du = replicate (nat ((nx + 1) * ny)) 0, dv = replicate (nat (nx * (ny + 1))) 0,
                     uNew = replicate (nat ((nx + 1) * ny)) 0, vNew = replicate (nat (nx * (ny + 1))) 0,
                     uWeight = replicate (nat ((nx + 1) * ny)) 0, vWeight = replicate (nat (nx * (ny + 1))) 0,
                     pDensity = replicate (nat (nx * ny)) 0,
                     cellType = replicate (nat (nx * ny)) 0,
                     particles = [], totalTime = 0\<rparr>"
  have sp: "spacing \<noteq> 0" using construct_SomeD(1) [OF assms(1)] .
  from assms(1) sp have ip: "initParticles rnd (initGrid s0) = Some s"
    unfolding construct_def Let_def nx_def [symmetric] ny_def [symmetric] s0_def [symmetric]
    by (auto split: if_splits)
  have g: "initGrid s0 = s0\<lparr>cellType := cellType (initGrid s0)\<rparr>"
    using initGrid_frame [of s0] by blast
  have f: "fNumX (initGrid s0) = nx" "fNumY (initGrid s0) = ny"
    by (subst g, simp add: s0_def)+
  from ip obtain ps where "s = (initGrid s0)\<lparr>particles := ps\<rparr>"
    by (auto simp: initParticles_def Let_def)
  then have s: "cellType s = cellType (initGrid s0)" "fNumX s = nx" "fNumY s = ny"
    using f by simp_all
  have "rd (cellType (initGrid s0)) (getCellIndex s0 i j) =
     (if i = 0 \<or> i = fNumX s0 - 1 \<or> j = 0 \<or> j = fNumY s0 - 1 then SOLID else AIR)"
    by (rule initGrid_cells) (use assms(2-5) s in \<open>simp_all add: s0_def\<close>)
  then show ?thesis by (simp add: s getCellIndex_def s0_def)
qed

end
